theory Spec2Isabelle
  imports Main "HOL-Library.Sublist" "HOL-Library.Word"
begin

section \<open>Strings, bytes and character classes\<close>

text \<open>
  JavaScript strings are modelled as \<^typ>\<open>string\<close>: a list of code units, here the
  units U+0000 to U+00FF. The path functions and the regular expressions of the server
  only compare units with ASCII characters, and \<open>s.length\<close> is \<^term>\<open>length s\<close>.
  A byte buffer (\<open>Buffer\<close>, \<open>ArrayBuffer\<close>, \<open>Uint8Array\<close>) is a list of 8-bit words.
\<close>

type_synonym byte = "8 word"

definition slash :: char where
  "slash = CHR ''/''"

definition backslash :: char where
  "backslash = CHR 0x5C"

text \<open>The regular-expression class \<open>[a-f0-9]\<close>.\<close>

definition is_hexlower :: "char \<Rightarrow> bool" where
  "is_hexlower c = (c \<in> set ''abcdef0123456789'')"

text \<open>The class \<open>[a-zA-Z0-9_-]\<close> of the share-link patterns.\<close>

definition is_idchar :: "char \<Rightarrow> bool" where
  "is_idchar c =
     (c \<in> set ''abcdefghijklmnopqrstuvwxyzABCDEFGHIJKLMNOPQRSTUVWXYZ0123456789_-'')"

text \<open>The class \<open>[a-zA-Z0-9_\-\.]\<close> of \<open>isValidFilename\<close>.\<close>

definition is_namechar :: "char \<Rightarrow> bool" where
  "is_namechar c = (is_idchar c \<or> c = CHR ''.'')"

text \<open>
  \<open>match_class_n cls n s\<close> consumes exactly \<open>n\<close> units of the class \<open>cls\<close> from the front of
  \<open>s\<close> and returns the rest: the matcher of \<open>[cls]{n}\<close>.
\<close>

fun match_class_n :: "(char \<Rightarrow> bool) \<Rightarrow> nat \<Rightarrow> string \<Rightarrow> string option" where
  "match_class_n cls 0 s = Some s"
| "match_class_n cls (Suc n) [] = None"
| "match_class_n cls (Suc n) (c # s) = (if cls c then match_class_n cls n s else None)"

text \<open>\<open>s.split(sep)\<close> for a one-character separator; the result is never empty.\<close>

fun split_on :: "char \<Rightarrow> string \<Rightarrow> string list" where
  "split_on sep [] = [[]]"
| "split_on sep (c # s) =
     (if c = sep then [] # split_on sep s
      else (case split_on sep s of [] \<Rightarrow> [[c]] | h # t \<Rightarrow> (c # h) # t))"

text \<open>\<open>parts.join(sep)\<close>.\<close>

fun join_with :: "string \<Rightarrow> string list \<Rightarrow> string" where
  "join_with sep [] = []"
| "join_with sep [p] = p"
| "join_with sep (p # q # ps) = p @ sep @ join_with sep (q # ps)"

section \<open>The POSIX flavour of Node's \<open>path\<close> module\<close>

text \<open>
  The server imports Node's \<open>path\<close>; on a POSIX host the separator \<open>path.sep\<close> is \<open>/\<close>.
  \<open>normalizeString\<close> walks the segments between separators with a stack: an empty
  segment and \<open>.\<close> are dropped, \<open>..\<close> removes the last segment unless there is none or it
  is \<open>..\<close> itself, in which case \<open>..\<close> is kept when the path may climb above its root and
  dropped otherwise. The stack is kept in reverse.
\<close>

fun normalizeSegs :: "bool \<Rightarrow> string list \<Rightarrow> string list \<Rightarrow> string list" where
  "normalizeSegs up acc [] = rev acc"
| "normalizeSegs up acc (s # ss) =
     (if s = [] \<or> s = ''.'' then normalizeSegs up acc ss
      else if s = ''..'' then
        (case acc of
           [] \<Rightarrow> normalizeSegs up (if up then [''..''] else []) ss
         | t # ts \<Rightarrow>
             if t = ''..'' then normalizeSegs up (if up then ''..'' # acc else acc) ss
             else normalizeSegs up ts ss)
      else normalizeSegs up (s # acc) ss)"

definition normalizeString :: "string \<Rightarrow> bool \<Rightarrow> string" where
  "normalizeString p up = join_with ''/'' (normalizeSegs up [] (split_on slash p))"

definition isAbsolute :: "string \<Rightarrow> bool" where
  "isAbsolute p = (p \<noteq> [] \<and> hd p = slash)"

text \<open>\<open>path.normalize\<close>.\<close>

definition path_normalize :: "string \<Rightarrow> string" where
  "path_normalize p =
     (if p = [] then ''.''
      else
        let trailing = (last p = slash);
            r = normalizeString p (\<not> isAbsolute p)
        in if r = [] then (if isAbsolute p then ''/'' else if trailing then ''./'' else ''.'')
           else (if isAbsolute p then ''/'' else []) @ r @ (if trailing then ''/'' else []))"

text \<open>\<open>path.join\<close> of two arguments: empty arguments are left out.\<close>

definition path_join :: "string \<Rightarrow> string \<Rightarrow> string" where
  "path_join a b =
     (let joined = (if a = [] then b else if b = [] then a else a @ ''/'' @ b)
      in if joined = [] then ''.'' else path_normalize joined)"

text \<open>
  \<open>path.resolve\<close> of one argument. A relative argument is resolved against the working
  directory \<open>cwd\<close> of the process, which is an absolute path.
\<close>

definition path_resolve :: "string \<Rightarrow> string \<Rightarrow> string" where
  "path_resolve cwd p =
     (let full = (if isAbsolute p then p else if p = [] then cwd else cwd @ ''/'' @ p)
      in ''/'' @ normalizeString full False)"

text \<open>
  \<open>path.dirname\<close>: trailing separators are skipped (never the first unit), then the
  path is cut at the last separator before the final segment.
\<close>

definition path_dirname :: "string \<Rightarrow> string" where
  "path_dirname p =
     (if p = [] then ''.''
      else
        let r = dropWhile (\<lambda>c. c \<noteq> slash) (dropWhile (\<lambda>c. c = slash) (rev (tl p)))
        in if r = [] then (if hd p = slash then ''/'' else ''.'')
           else if hd p = slash \<and> tl r = [] then ''//''
           else hd p # rev (tl r))"

text \<open>The last non-empty segment of a path: what \<open>path.extname\<close> looks at.\<close>

definition last_segment :: "string \<Rightarrow> string" where
  "last_segment p =
     (let ss = filter (\<lambda>s. s \<noteq> []) (split_on slash p) in if ss = [] then [] else last ss)"

text \<open>
  \<open>path.extname\<close>: from the last dot of the last segment to its end; empty when the
  segment has no dot, starts with its only dot, or is \<open>..\<close>.
\<close>

definition path_extname :: "string \<Rightarrow> string" where
  "path_extname p =
     (let b = last_segment p
      in if CHR ''.'' \<notin> set b then []
         else
           let suffix = rev (takeWhile (\<lambda>c. c \<noteq> CHR ''.'') (rev b));
               stem = rev (tl (dropWhile (\<lambda>c. c \<noteq> CHR ''.'') (rev b)))
           in if stem = [] \<or> b = ''..'' then [] else CHR ''.'' # suffix)"

text \<open>\<open>toLowerCase\<close> on the ASCII letters; the other units of the model are no ASCII
  letter before or after lowering, which is all the comparisons below depend on.\<close>

definition lower_char :: "char \<Rightarrow> char" where
  "lower_char c =
     (case map_of (zip ''ABCDEFGHIJKLMNOPQRSTUVWXYZ'' ''abcdefghijklmnopqrstuvwxyz'') c of
        None \<Rightarrow> c | Some d \<Rightarrow> d)"

definition toLowerCase :: "string \<Rightarrow> string" where
  "toLowerCase s = map lower_char s"

section \<open>Utility functions of the server\<close>

text \<open>
  \<open>crypto.randomBytes(n)\<close> draws \<open>n\<close> bytes from the entropy source, modelled as the
  stream \<open>rnd\<close> of the bytes it will deliver; \<open>toString('hex')\<close> writes each byte as two
  lowercase hexadecimal digits.
\<close>

definition randomBytes :: "(nat \<Rightarrow> byte) \<Rightarrow> nat \<Rightarrow> byte list" where
  "randomBytes rnd n = map rnd [0..<n]"

definition hexdigit :: "nat \<Rightarrow> char" where
  "hexdigit n = ''0123456789abcdef'' ! (n mod 16)"

definition toHex :: "byte list \<Rightarrow> string" where
  "toHex bs = concat (map (\<lambda>b. [hexdigit (unat b div 16), hexdigit (unat b mod 16)]) bs)"

definition generateSecureSessionId :: "(nat \<Rightarrow> byte) \<Rightarrow> string" where
  "generateSecureSessionId rnd = toHex (randomBytes rnd 32)"

text \<open>The replacement of \<open>/^(\.\.[\/\\])+/\<close> by the empty string: every leading
  \<open>../\<close> or \<open>..\\<close> is removed.\<close>

fun strip_dotdot :: "string \<Rightarrow> string" where
  "strip_dotdot (a # b # c # s) =
     (if a = CHR ''.'' \<and> b = CHR ''.'' \<and> (c = slash \<or> c = backslash) then strip_dotdot s
      else a # b # c # s)"
| "strip_dotdot s = s"

definition sanitizePath :: "string \<Rightarrow> string" where
  "sanitizePath unsafePath =
     (let normalized = strip_dotdot (path_normalize unsafePath)
      in join_with ''/'' (split_on slash normalized))"

text \<open>\<open>validatePath\<close>; \<open>startsWith\<close> is the prefix order on strings.\<close>

definition validatePath :: "string \<Rightarrow> string \<Rightarrow> string \<Rightarrow> bool" where
  "validatePath cwd basePath targetPath =
     (let resolvedBase = path_resolve cwd basePath;
          resolvedTarget = path_resolve cwd targetPath
      in prefix resolvedBase resolvedTarget)"

definition isValidFilename :: "string \<Rightarrow> bool" where
  "isValidFilename filename = (filename \<noteq> [] \<and> list_all is_namechar filename)"

definition isValidSessionId :: "string \<Rightarrow> bool" where
  "isValidSessionId sessionId = (match_class_n is_hexlower 64 sessionId = Some [])"

definition isAllowedFileExtension :: "string \<Rightarrow> bool" where
  "isAllowedFileExtension filename =
     (let allowed = [''.glb'', ''.mind'', ''.json''];
          ext = toLowerCase (path_extname filename)
      in ext \<in> set allowed)"

text \<open>
  \<open>validateImageBuffer\<close>. Reading a typed array past its end gives \<open>undefined\<close>, which is
  equal to no number: \<open>byte_at\<close> returns \<open>None\<close> there. The result object
  \<open>{valid, type}\<close> is a pair, \<open>type: null\<close> being \<open>None\<close>.
\<close>

definition byte_at :: "byte list \<Rightarrow> nat \<Rightarrow> byte option" where
  "byte_at xs i = (if i < length xs then Some (xs ! i) else None)"

definition validateImageBuffer :: "byte list \<Rightarrow> bool \<times> string option" where
  "validateImageBuffer buffer =
     (let uint8 = take 4 buffer
      in if byte_at uint8 0 = Some 0x89 \<and> byte_at uint8 1 = Some 0x50 \<and>
            byte_at uint8 2 = Some 0x4E \<and> byte_at uint8 3 = Some 0x47
         then (True, Some ''image/png'')
         else if byte_at uint8 0 = Some 0xFF \<and> byte_at uint8 1 = Some 0xD8 \<and>
                 byte_at uint8 2 = Some 0xFF
         then (True, Some ''image/jpeg'')
         else if byte_at uint8 0 = Some 0x52 \<and> byte_at uint8 1 = Some 0x49 \<and>
                 byte_at uint8 2 = Some 0x46 \<and> byte_at uint8 3 = Some 0x46
         then (True, Some ''image/webp'')
         else (False, None))"

text \<open>
  \<open>isAllowedDomain\<close>. The WHATWG URL parser behind \<open>new URL(url).hostname\<close> is a
  parameter: \<open>hostname url\<close> is \<open>None\<close> when the constructor throws.
\<close>

definition isAllowedDomain :: "(string \<Rightarrow> string option) \<Rightarrow> string \<Rightarrow> bool" where
  "isAllowedDomain hostname url =
     (case hostname url of
        None \<Rightarrow> False
      | Some h \<Rightarrow> h \<in> set [''drive.google.com'', ''lh3.googleusercontent.com''])"

text \<open>\<open>isPrivateIP\<close>: the eight anchored patterns, in the order of the source.\<close>

definition class_b_private :: "string \<Rightarrow> bool" where
  "class_b_private h =
     (prefix ''172.'' h \<and>
      (case drop 4 h of
         a # b # c # _ \<Rightarrow>
           c = CHR ''.'' \<and>
           (a = CHR ''1'' \<and> b \<in> set ''6789'' \<or>
            a = CHR ''2'' \<and> b \<in> set ''0123456789'' \<or>
            a = CHR ''3'' \<and> b \<in> set ''01'')
       | _ \<Rightarrow> False))"

definition isPrivateIP :: "string \<Rightarrow> bool" where
  "isPrivateIP hostname =
     list_ex (\<lambda>pattern. pattern hostname)
       [prefix ''127.'', prefix ''10.'', class_b_private, prefix ''192.168.'',
        prefix ''169.254.'', (\<lambda>h. h = ''::1''), prefix ''fc00:'', prefix ''fe80:'']"

section \<open>Request data, library functions and the file system\<close>

text \<open>
  A value of a parsed JSON body. \<open>JUndefined\<close> stands for a key that is absent.
\<close>

datatype jsval =
    JUndefined | JNull | JBool bool | JNum int | JStr string
  | JArr "jsval list" | JObj "(string \<times> jsval) list"

text \<open>
  A file descriptor of the request: \<open>{path, content, type}\<close>. \<open>fpath\<close> is \<open>None\<close> when
  \<open>path\<close> is not a string, which \<open>path.normalize\<close> answers with a \<open>TypeError\<close>.
\<close>

record file_entry =
  fpath :: "string option"
  content :: jsval
  ftype :: string

record zip_body =
  sessionId :: "string option"
  files :: "file_entry list option"

text \<open>
  The process-wide configuration: the directory of the script (\<open>__dirname\<close>) and the
  working directory, both absolute paths.
\<close>

record config =
  dirname :: string
  cwd :: string

text \<open>
  What the server takes from the platform and does not define: the lenient base64
  decoder of \<open>Buffer.from(s, 'base64')\<close>, \<open>JSON.stringify(v, null, 2)\<close> (\<open>None\<close> for
  its \<open>undefined\<close> result), \<open>Buffer.from\<close> on a value that is no string (\<open>None\<close>
  when it throws), and, for a value \<open>v\<close> that is no string, whether the comparison
  \<open>v.length > n\<close> is evaluated to true.
\<close>

record lib =
  b64decode :: "string \<Rightarrow> byte list"
  stringify :: "jsval \<Rightarrow> string option"
  bufferFromValue :: "jsval \<Rightarrow> byte list option"
  lengthAbove :: "jsval \<Rightarrow> nat \<Rightarrow> bool"

text \<open>\<open>Buffer.from(s)\<close> of a string: its UTF-8 bytes, one or two for a unit below U+0100.\<close>

definition utf8_unit :: "char \<Rightarrow> byte list" where
  "utf8_unit c =
     (let n = (of_char c :: nat)
      in if n < 128 then [of_nat n] else [of_nat (192 + n div 64), of_nat (128 + n mod 64)])"

definition utf8_encode :: "string \<Rightarrow> byte list" where
  "utf8_encode s = concat (map utf8_unit s)"

datatype exn = TypeError | ENOENT | ENOTDIR | EEXIST | EISDIR | ENAMETOOLONG

text \<open>
  The file system is a map from absolute paths, as lists of segment names, to nodes.
  The root \<open>[]\<close> is a directory. A path string names the node its segments lead to;
  the strings the server passes are normalized already.
\<close>

datatype node = Dir | File "byte list"

type_synonym fsys = "string list \<Rightarrow> node option"

definition fs_key :: "string \<Rightarrow> string list" where
  "fs_key p = normalizeSegs False [] (split_on slash p)"

text \<open>
  What the \<open>fs\<close> functions refuse before they look at the disk: a path with a NUL
  unit is a \<open>TypeError\<close>; on Linux a path of 4096 bytes or more and a name of more
  than 255 bytes are \<open>ENAMETOOLONG\<close>. Paths are passed to the system in UTF-8.
  \<open>fs.existsSync\<close> answers \<open>false\<close> where the others throw.
\<close>

definition path_error :: "string \<Rightarrow> exn option" where
  "path_error p =
     (if CHR 0x00 \<in> set p then Some TypeError
      else if 4096 \<le> length (utf8_encode p) \<or>
              list_ex (\<lambda>s. 255 < length (utf8_encode s)) (split_on slash p)
      then Some ENAMETOOLONG
      else None)"

definition existsSync :: "fsys \<Rightarrow> string \<Rightarrow> bool" where
  "existsSync fs p = (path_error p = None \<and> fs (fs_key p) \<noteq> None)"

text \<open>
  \<open>fs.mkdirSync(p, {recursive: true})\<close>: every missing directory on the way is created;
  a regular file on the way makes the call throw.
\<close>

fun mkdirp :: "fsys \<Rightarrow> string list \<Rightarrow> string list \<Rightarrow> exn + fsys" where
  "mkdirp fs pre [] = Inr fs"
| "mkdirp fs pre (s # ss) =
     (case fs (pre @ [s]) of
        None \<Rightarrow> mkdirp (fs(pre @ [s] \<mapsto> Dir)) (pre @ [s]) ss
      | Some Dir \<Rightarrow> mkdirp fs (pre @ [s]) ss
      | Some (File _) \<Rightarrow> Inl (if ss = [] then EEXIST else ENOTDIR))"

definition mkdirSync :: "fsys \<Rightarrow> string \<Rightarrow> exn + fsys" where
  "mkdirSync fs p =
     (case path_error p of Some e \<Rightarrow> Inl e | None \<Rightarrow> mkdirp fs [] (fs_key p))"

text \<open>
  \<open>fs.writeFileSync(p, buffer)\<close>: the parent must be a directory and the target no
  directory; a path that ends in a separator cannot be opened for writing.
\<close>

definition writeFileSync :: "fsys \<Rightarrow> string \<Rightarrow> byte list \<Rightarrow> exn + fsys" where
  "writeFileSync fs p buffer =
     (case path_error p of
        Some e \<Rightarrow> Inl e
      | None \<Rightarrow>
          let k = fs_key p
          in if k = [] then Inl EISDIR
             else
               (case fs (butlast k) of
                  None \<Rightarrow> Inl ENOENT
                | Some (File _) \<Rightarrow> Inl ENOTDIR
                | Some Dir \<Rightarrow>
                    (case fs k of
                       Some Dir \<Rightarrow> Inl EISDIR
                     | Some (File _) \<Rightarrow>
                         if last p = slash then Inl ENOTDIR else Inr (fs(k \<mapsto> File buffer))
                     | None \<Rightarrow>
                         if last p = slash then Inl EISDIR
                         else Inr (fs(k \<mapsto> File buffer)))))"

section \<open>The create-archive endpoint\<close>

definition TEMP_DIR :: "config \<Rightarrow> string" where
  "TEMP_DIR cfg = path_join (dirname cfg) ''temp''"

definition MAX_BUFFER :: nat where
  "MAX_BUFFER = 20 * 1024 * 1024"

text \<open>
  The path gate of the file loop: sanitize, reject empty and over-long paths, join
  with the output directory, check containment, check the extension. \<open>None\<close> is
  \<open>continue\<close>; \<open>Some fullPath\<close> is the path that will be written.
\<close>

definition entry_target :: "string \<Rightarrow> string \<Rightarrow> string \<Rightarrow> string option" where
  "entry_target wd outputDir filePath =
     (let safePath = sanitizePath filePath
      in if safePath = [] \<or> length safePath > 255 then None
         else
           let fullPath = path_join outputDir safePath
           in if \<not> validatePath wd outputDir fullPath then None
              else if \<not> isAllowedFileExtension fullPath then None
              else Some fullPath)"

text \<open>The replacement of \<open>/^data:.*?;base64,/\<close>; the dot matches no line terminator.\<close>

fun skip_to_marker :: "string \<Rightarrow> string option" where
  "skip_to_marker [] = None"
| "skip_to_marker (c # s) =
     (if prefix '';base64,'' (c # s) then Some (drop 8 (c # s))
      else if c = CHR 0x0A \<or> c = CHR 0x0D then None
      else skip_to_marker s)"

definition strip_data_url :: "string \<Rightarrow> string" where
  "strip_data_url s =
     (if prefix ''data:'' s
      then (case skip_to_marker (drop 5 s) of None \<Rightarrow> s | Some r \<Rightarrow> r)
      else s)"

text \<open>
  Decoding the content by its declared type. \<open>TooLarge\<close> is the \<open>continue\<close> of the size
  check before decoding, \<open>Raised\<close> an exception, \<open>Buffer\<close> the decoded bytes. In the
  \<open>base64\<close> branch a content that is no string either counts as too large or, having
  no \<open>replace\<close> method, raises a \<open>TypeError\<close>. A \<open>type\<close> that is no string behaves as a
  string other than \<open>base64\<close> and \<open>json\<close>.
\<close>

datatype decoded = TooLarge | Raised exn | Buffer "byte list"

definition decode_content :: "lib \<Rightarrow> string \<Rightarrow> jsval \<Rightarrow> decoded" where
  "decode_content l ty c =
     (if ty = ''base64'' then
        (case c of
           JStr s \<Rightarrow>
             if length s > MAX_BUFFER then TooLarge
             else Buffer (b64decode l (strip_data_url s))
         | _ \<Rightarrow> if lengthAbove l c MAX_BUFFER then TooLarge else Raised TypeError)
      else if ty = ''json'' then
        (case stringify l c of
           None \<Rightarrow> Raised TypeError
         | Some s \<Rightarrow> Buffer (utf8_encode s))
      else
        (case c of
           JStr s \<Rightarrow> Buffer (utf8_encode s)
         | _ \<Rightarrow> (case bufferFromValue l c of None \<Rightarrow> Raised TypeError | Some b \<Rightarrow> Buffer b)))"

text \<open>
  One turn of the loop over \<open>files\<close>. The result is the exception thrown, if any, and
  the file system after the turn; a skipped entry returns no exception.
\<close>

definition saveFile ::
  "lib \<Rightarrow> string \<Rightarrow> string \<Rightarrow> fsys \<Rightarrow> file_entry \<Rightarrow> exn option \<times> fsys" where
  "saveFile l wd outputDir fs fileData =
     (case fpath fileData of
        None \<Rightarrow> (Some TypeError, fs)
      | Some filePath \<Rightarrow>
          (case entry_target wd outputDir filePath of
             None \<Rightarrow> (None, fs)
           | Some fullPath \<Rightarrow>
               let dirPath = path_dirname fullPath
               in (case (if existsSync fs dirPath then Inr fs else mkdirSync fs dirPath) of
                     Inl e \<Rightarrow> (Some e, fs)
                   | Inr fs1 \<Rightarrow>
                       (case decode_content l (ftype fileData) (content fileData) of
                          TooLarge \<Rightarrow> (None, fs1)
                        | Raised e \<Rightarrow> (Some e, fs1)
                        | Buffer buffer \<Rightarrow>
                            if length buffer > MAX_BUFFER then (None, fs1)
                            else
                              (case writeFileSync fs1 fullPath buffer of
                                 Inl e \<Rightarrow> (Some e, fs1)
                               | Inr fs2 \<Rightarrow> (None, fs2))))))"

fun saveFiles ::
  "lib \<Rightarrow> string \<Rightarrow> string \<Rightarrow> fsys \<Rightarrow> file_entry list \<Rightarrow> exn option \<times> fsys" where
  "saveFiles l wd outputDir fs [] = (None, fs)"
| "saveFiles l wd outputDir fs (fileData # rest) =
     (case saveFile l wd outputDir fs fileData of
        (Some e, fs1) \<Rightarrow> (Some e, fs1)
      | (None, fs1) \<Rightarrow> saveFiles l wd outputDir fs1 rest)"

text \<open>
  \<open>createZip\<close>. What the archiver and the output stream do after the call is a list
  of events, in the order they happen: bytes arriving at the output stream, an
  \<open>error\<close> event of the archiver, an \<open>error\<close> event of the output stream, the \<open>close\<close>
  event of the output stream. \<open>fs.createWriteStream\<close> opens its file for writing,
  which creates or empties it; the promise is settled by the first of \<open>resolve\<close> and
  \<open>reject\<close>. \<open>createZip\<close> registers no listener for an error of the output stream,
  and an \<open>error\<close> event without a listener is thrown as an uncaught exception, which
  terminates the server process: \<open>Exited\<close> says that this happened before the promise
  was settled. A file that cannot be opened is such an error; a path with a NUL unit
  is refused when the stream is created, inside the executor of the promise, which
  rejects it. After the close or the error of the stream nothing more is written.
\<close>

datatype zip_event = ZData "byte list" | ZArchiveError | ZStreamError | ZClose

datatype promise = Pending | Resolved | Rejected | Exited

record zip_state =
  settled :: promise
  stream_open :: bool
  disk :: fsys

definition append_file :: "fsys \<Rightarrow> string list \<Rightarrow> byte list \<Rightarrow> fsys" where
  "append_file fs k d =
     (case fs k of Some (File old) \<Rightarrow> fs(k \<mapsto> File (old @ d)) | _ \<Rightarrow> fs)"

fun zip_step :: "string list \<Rightarrow> zip_state \<Rightarrow> zip_event \<Rightarrow> zip_state" where
  "zip_step k st (ZData d) =
     (if stream_open st then st\<lparr>disk := append_file (disk st) k d\<rparr> else st)"
| "zip_step k st ZArchiveError =
     (if settled st = Pending then st\<lparr>settled := Rejected\<rparr> else st)"
| "zip_step k st ZStreamError =
     (if stream_open st
      then st\<lparr>stream_open := False,
              settled := (if settled st = Pending then Exited else settled st)\<rparr>
      else st)"
| "zip_step k st ZClose =
     (if stream_open st
      then st\<lparr>stream_open := False,
              settled := (if settled st = Pending then Resolved else settled st)\<rparr>
      else st)"

definition createZip :: "fsys \<Rightarrow> string \<Rightarrow> zip_event list \<Rightarrow> promise \<times> fsys" where
  "createZip fs outputPath evs =
     (case writeFileSync fs outputPath [] of
        Inl e \<Rightarrow> (if e = TypeError then Rejected else Exited, fs)
      | Inr fs1 \<Rightarrow>
          let st = foldl (zip_step (fs_key outputPath))
                     \<lparr>settled = Pending, stream_open = True, disk = fs1\<rparr> evs
          in (settled st, disk st))"

text \<open>
  A response: a status with its message, the success object with its download URL,
  the bytes of a file sent by \<open>res.download\<close>, no response yet (the promise is still
  pending when the events end), or none because the server process has exited.
\<close>

datatype response =
  Reply nat string | Success string | SendFile "byte list" | NoReply | ProcessExit

definition create_zip ::
  "lib \<Rightarrow> config \<Rightarrow> fsys \<Rightarrow> zip_body \<Rightarrow> zip_event list \<Rightarrow> response \<times> fsys" where
  "create_zip l cfg fs body evs =
     (case sessionId body of
        None \<Rightarrow> (Reply 400 ''Invalid session ID'', fs)
      | Some sid \<Rightarrow>
          if sid = [] \<or> \<not> isValidSessionId sid then (Reply 400 ''Invalid session ID'', fs)
          else
            (case files body of
               None \<Rightarrow> (Reply 400 ''Invalid files array'', fs)
             | Some fl \<Rightarrow>
                 if fl = [] then (Reply 400 ''Invalid files array'', fs)
                 else if length fl > 1000 then (Reply 400 ''Too many files'', fs)
                 else
                   let sessionDir = path_join (TEMP_DIR cfg) sid;
                       outputDir = path_join sessionDir ''output''
                   in if \<not> validatePath (cwd cfg) (TEMP_DIR cfg) sessionDir
                      then (Reply 400 ''Invalid path'', fs)
                      else
                        (case (if existsSync fs outputDir then Inr fs
                               else mkdirSync fs outputDir) of
                           Inl e \<Rightarrow> (Reply 500 ''Internal server error'', fs)
                         | Inr fs1 \<Rightarrow>
                             (case saveFiles l (cwd cfg) outputDir fs1 fl of
                                (Some e, fs2) \<Rightarrow> (Reply 500 ''Internal server error'', fs2)
                              | (None, fs2) \<Rightarrow>
                                  let zipPath = path_join sessionDir ''ar_output.zip''
                                  in (case createZip fs2 zipPath evs of
                                        (Resolved, fs3) \<Rightarrow>
                                          (Success (''/download/'' @ sid @ ''/ar_output.zip''), fs3)
                                      | (Rejected, fs3) \<Rightarrow>
                                          (Reply 500 ''Internal server error'', fs3)
                                      | (Pending, fs3) \<Rightarrow> (NoReply, fs3)
                                      | (Exited, fs3) \<Rightarrow> (ProcessExit, fs3))))))"

section \<open>The download endpoint\<close>

text \<open>
  The handler up to its response. \<open>res.download\<close> hands the resolved path to the
  \<open>send\<close> module without a root, which refuses a path with a part of more than one
  unit that starts with a dot, and a directory; the handler answers both with 500.
  The deletion of the session directory that it schedules for one minute after a
  download is left out.
\<close>

definition has_dot_part :: "string list \<Rightarrow> bool" where
  "has_dot_part parts = list_ex (\<lambda>s. 1 < length s \<and> hd s = CHR ''.'') parts"

definition download :: "config \<Rightarrow> fsys \<Rightarrow> string \<Rightarrow> string \<Rightarrow> response" where
  "download cfg fs sid filename =
     (if \<not> isValidSessionId sid then Reply 400 ''Invalid session ID''
      else if \<not> isValidFilename filename then Reply 400 ''Invalid filename''
      else
        let sessionDir = path_join (TEMP_DIR cfg) sid;
            filePath = path_join sessionDir filename
        in if \<not> validatePath (cwd cfg) sessionDir filePath then Reply 400 ''Invalid path''
           else if \<not> existsSync fs filePath then Reply 404 ''File not found''
           else
             (case fs (fs_key filePath) of
                Some (File bytes) \<Rightarrow>
                  if has_dot_part (fs_key filePath) then Reply 500 ''Download failed''
                  else SendFile bytes
              | _ \<Rightarrow> Reply 500 ''Download failed''))"

section \<open>The image proxy: what is decided before the fetch\<close>

text \<open>
  The first match of \<open>lit([a-zA-Z0-9_-]+)\<close> anywhere in the string: the leftmost
  place where \<open>lit\<close> is followed by a character of the class; the group is the
  longest run of the class there.
\<close>

fun find_id :: "string \<Rightarrow> string \<Rightarrow> string option" where
  "find_id lit [] = None"
| "find_id lit (c # s) =
     (let fileId = takeWhile is_idchar (drop (length lit) (c # s))
      in if prefix lit (c # s) \<and> fileId \<noteq> [] then Some fileId else find_id lit s)"

definition driveUrl :: "string \<Rightarrow> string" where
  "driveUrl fileId = ''https://drive.google.com/uc?export=download&id='' @ fileId @ ''&confirm=t''"

definition rewriteUrl :: "string \<Rightarrow> string" where
  "rewriteUrl url =
     (case find_id ''drive.google.com/file/d/'' url of
        Some fileId \<Rightarrow> driveUrl fileId
      | None \<Rightarrow>
          (case find_id ''drive.google.com/open?id='' url of
             Some fileId \<Rightarrow> driveUrl fileId
           | None \<Rightarrow> url))"

text \<open>
  The handler up to its \<open>fetch\<close>: either a response, or the URL that is fetched.
  The query parameter is \<open>None\<close> when it is missing or no string; \<open>validator.isURL\<close>
  with the HTTPS-only options is the parameter \<open>isURL\<close>.
\<close>

datatype proxy_step = Respond nat string | Fetch string

definition proxy_image ::
  "(string \<Rightarrow> bool) \<Rightarrow> (string \<Rightarrow> string option) \<Rightarrow> string option \<Rightarrow> proxy_step" where
  "proxy_image isURL hostname q =
     (case q of
        None \<Rightarrow> Respond 400 ''Invalid URL parameter''
      | Some url \<Rightarrow>
          if url = [] then Respond 400 ''Invalid URL parameter''
          else if \<not> isURL url
          then Respond 400 ''Invalid URL format. Only HTTPS URLs are allowed.''
          else if \<not> isAllowedDomain hostname url then Respond 403 ''Domain not allowed''
          else Fetch (rewriteUrl url))"

section \<open>Instances for the examples\<close>

text \<open>
  The examples below need a configuration, a disk and the platform functions. The
  script lives in \<open>/srv/app\<close>; the disk holds the root directory alone or is given
  in the example. The examples that fix the platform functions send text content
  of a type other than \<open>base64\<close> and \<open>json\<close>, which none of the functions sees, so
  \<open>example_lib\<close> fixes them arbitrarily. \<open>authority_host\<close> reads the host of a URL of
  the plain shape \<open>https://host/...\<close>, where the URL parser returns the text between
  the scheme and the next separator.
\<close>

definition example_lib :: lib where
  "example_lib =
     \<lparr>b64decode = (\<lambda>s. []), stringify = (\<lambda>v. None), bufferFromValue = (\<lambda>v. None),
      lengthAbove = (\<lambda>v n. False)\<rparr>"

definition example_cfg :: config where
  "example_cfg = \<lparr>dirname = ''/srv/app'', cwd = ''/srv/app''\<rparr>"

definition root_only :: fsys where
  "root_only = [[] \<mapsto> Dir]"

definition authority_host :: "string \<Rightarrow> string option" where
  "authority_host url =
     (if prefix ''https://'' url then Some (takeWhile (\<lambda>c. c \<noteq> slash) (drop 8 url))
      else None)"

section \<open>Vocabulary of the statements about paths\<close>

text \<open>
  A proper name is what a directory entry can be called: not empty, not \<open>.\<close>, not
  \<open>..\<close>, without a separator. \<open>abs_path\<close> writes the absolute path that leads through
  the given names. \<open>climbs_first\<close> says of a list of segments that all its \<open>..\<close> come
  first; \<open>keep_seg\<close> holds of the segments that normalization does not drop.
\<close>

definition proper :: "string \<Rightarrow> bool" where
  "proper s = (s \<noteq> [] \<and> s \<noteq> ''.'' \<and> s \<noteq> ''..'' \<and> slash \<notin> set s)"

definition abs_path :: "string list \<Rightarrow> string" where
  "abs_path segs = concat (map (\<lambda>s. slash # s) segs)"

definition climbs_first :: "string list \<Rightarrow> bool" where
  "climbs_first ss = (''..'' \<notin> set (dropWhile (\<lambda>s. s = ''..'') ss))"

definition keep_seg :: "string \<Rightarrow> bool" where
  "keep_seg s = (s \<noteq> [] \<and> s \<noteq> ''.'')"

text \<open>
  \<open>spine segs\<close> is the disk that holds exactly the directories on the way from the
  root to \<open>segs\<close>. \<open>example_sid\<close> is a well-formed session identifier, and
  \<open>example_files\<close> is a batch with one entry whose path climbs out of the output
  directory twice.
\<close>

definition spine :: "string list \<Rightarrow> fsys" where
  "spine segs k = (if prefix k segs then Some Dir else None)"

definition example_sid :: string where
  "example_sid = ''0123456789abcdef0123456789abcdef0123456789abcdef0123456789abcdef''"

definition example_files :: "file_entry list" where
  "example_files =
     [\<lparr>fpath = Some ''../../etc/passwd.json'', content = JStr ''root'', ftype = ''text''\<rparr>]"

text \<open>
  The paths of the example session, and a batch of three entries for it: a small
  file \<open>a.json\<close>, an entry below \<open>a.json\<close> whose base64 content is one character
  longer than the limit of 20 MiB, and a small file \<open>d.json\<close>. \<open>disk_after_first\<close> is
  the disk once the output directory exists and \<open>a.json\<close> has been written.
\<close>

definition example_out :: "string list" where
  "example_out = [''srv'', ''app'', ''temp'', example_sid, ''output'']"

definition example_sessionDir :: string where
  "example_sessionDir = ''/srv/app/temp/'' @ example_sid"

definition example_outputDir :: string where
  "example_outputDir = example_sessionDir @ ''/output''"

definition example_zipPath :: string where
  "example_zipPath = example_sessionDir @ ''/ar_output.zip''"

definition oversized_entry :: file_entry where
  "oversized_entry =
     \<lparr>fpath = Some ''a.json/b/c.json'', content = JStr (replicate 20971521 (CHR ''A'')),
      ftype = ''base64''\<rparr>"

definition first_entry :: file_entry where
  "first_entry = \<lparr>fpath = Some ''a.json'', content = JStr ''{}'', ftype = ''text''\<rparr>"

definition last_entry :: file_entry where
  "last_entry = \<lparr>fpath = Some ''d.json'', content = JStr ''{}'', ftype = ''text''\<rparr>"

definition disk_after_first :: fsys where
  "disk_after_first = (spine example_out)(example_out @ [''a.json''] \<mapsto> File [0x7B, 0x7D])"

text \<open>
  The place of the archive of the example session on disk, and the request that
  sends the single small file \<open>a.json\<close>.
\<close>

definition example_zipKey :: "string list" where
  "example_zipKey = [''srv'', ''app'', ''temp'', example_sid, ''ar_output.zip'']"

definition single_body :: zip_body where
  "single_body = \<lparr>sessionId = Some example_sid, files = Some [first_entry]\<rparr>"

section \<open>Vocabulary of the statements about share links and the build\<close>

text \<open>
  \<open>matches_at lit url n\<close> says that the pattern \<open>lit([a-zA-Z0-9_-]+)\<close> matches the URL
  at position \<open>n\<close>: the literal stands there and is followed by a character of the
  identifier alphabet.
\<close>

definition matches_at :: "string \<Rightarrow> string \<Rightarrow> nat \<Rightarrow> bool" where
  "matches_at lit url n =
     (prefix lit (drop n url) \<and>
      (case drop (n + length lit) url of [] \<Rightarrow> False | c # _ \<Rightarrow> is_idchar c))"

text \<open>
  \<open>streamed evs\<close> is what the events have delivered to the output stream: the chunks
  that arrived before the stream closed or failed, in their order.
\<close>

fun streamed :: "zip_event list \<Rightarrow> byte list" where
  "streamed [] = []"
| "streamed (ZData d # evs) = d @ streamed evs"
| "streamed (ZArchiveError # evs) = streamed evs"
| "streamed (ZStreamError # evs) = []"
| "streamed (ZClose # evs) = []"

section \<open>Session identifiers\<close>

lemma match_class_n_all:
  "(match_class_n cls n s = Some []) = (length s = n \<and> list_all cls s)"
proof (induction n arbitrary: s)
  case 0
  then show ?case by auto
next
  case (Suc n)
  then show ?case by (cases s) auto
qed

lemma isValidSessionId_iff:
  "isValidSessionId s = (length s = 64 \<and> (\<forall>c \<in> set s. c \<in> set ''0123456789abcdef''))"
proof -
  have "set ''abcdef0123456789'' = set ''0123456789abcdef''" by auto
  then show ?thesis
    unfolding isValidSessionId_def match_class_n_all list_all_iff is_hexlower_def by simp
qed

lemma hexdigit_hexlower: "is_hexlower (hexdigit n)"
proof -
  have all: "list_all is_hexlower ''0123456789abcdef''"
    by (simp add: is_hexlower_def)
  have "n mod 16 < length ''0123456789abcdef''" by simp
  with all show ?thesis
    unfolding hexdigit_def list_all_length by blast
qed

lemma toHex_length: "length (toHex bs) = 2 * length bs"
  by (induction bs) (simp_all add: toHex_def)

lemma toHex_hexlower: "list_all is_hexlower (toHex bs)"
  by (induction bs) (simp_all add: toHex_def hexdigit_hexlower)

text \<open>
  Claim C9. Whatever bytes the entropy source delivers, the identifier made by
  \<open>generateSecureSessionId\<close> (32 random bytes written in hexadecimal) is accepted by
  \<open>isValidSessionId\<close>: it has 64 characters, all of them lowercase hexadecimal digits.
\<close>

theorem generated_session_id_valid:
  "isValidSessionId (generateSecureSessionId rnd)"
  unfolding isValidSessionId_def match_class_n_all generateSecureSessionId_def
  by (simp add: toHex_length toHex_hexlower randomBytes_def)

section \<open>The containment check\<close>

text \<open>
  Claim C2. The claim asks \<open>validatePath\<close> to respect segment boundaries, so that a
  target resolving to \<open>/base-evil\<close> is rejected for the base \<open>/base\<close>. The code
  compares the two resolved strings with \<open>startsWith\<close>: both paths resolve to
  themselves, \<open>/base\<close> is a prefix of \<open>/base-evil\<close>, and the check accepts.
\<close>

theorem validatePath_accepts_sibling_prefix:
  "path_resolve wd ''/base'' = ''/base'' \<and> path_resolve wd ''/base-evil'' = ''/base-evil'' \<and>
   validatePath wd ''/base'' ''/base-evil''"
  by (simp add: validatePath_def path_resolve_def isAbsolute_def slash_def normalizeString_def)

section \<open>Magic bytes\<close>

lemma list4_cases:
  obtains "b = []" | x0 where "b = [x0]" | x0 x1 where "b = [x0, x1]"
  | x0 x1 x2 where "b = [x0, x1, x2]" | x0 x1 x2 x3 r where "b = x0 # x1 # x2 # x3 # r"
  by (metis list.exhaust)

text \<open>
  Claim C4. A buffer that starts with \<open>89 50 4E 47\<close> is classified as PNG, one that
  starts with \<open>FF D8 FF\<close> as JPEG whatever its fourth byte, one that starts with
  \<open>52 49 46 46\<close> as WebP, and every other buffer is invalid. The classifier has the
  bytes as its only argument, so no declared content type can change the answer.
\<close>

theorem validateImageBuffer_signatures:
  "(take 4 b = [0x89, 0x50, 0x4E, 0x47] \<longrightarrow> validateImageBuffer b = (True, Some ''image/png'')) \<and>
   (take 3 b = [0xFF, 0xD8, 0xFF] \<longrightarrow> validateImageBuffer b = (True, Some ''image/jpeg'')) \<and>
   (take 4 b = [0x52, 0x49, 0x46, 0x46] \<longrightarrow> validateImageBuffer b = (True, Some ''image/webp'')) \<and>
   (take 4 b \<noteq> [0x89, 0x50, 0x4E, 0x47] \<and> take 3 b \<noteq> [0xFF, 0xD8, 0xFF] \<and>
    take 4 b \<noteq> [0x52, 0x49, 0x46, 0x46] \<longrightarrow> validateImageBuffer b = (False, None))"
  by (cases b rule: list4_cases) (auto simp: validateImageBuffer_def byte_at_def)

theorem validateImageBuffer_signatures_witness:
  "validateImageBuffer [0x89, 0x50, 0x4E, 0x47, 0x0D] = (True, Some ''image/png'') \<and>
   validateImageBuffer [0xFF, 0xD8, 0xFF, 0xE0] = (True, Some ''image/jpeg'') \<and>
   validateImageBuffer [0x52, 0x49, 0x46, 0x46, 0x00] = (True, Some ''image/webp'') \<and>
   validateImageBuffer [0x47, 0x49, 0x46, 0x38] = (False, None)"
  using validateImageBuffer_signatures [of "[0x89, 0x50, 0x4E, 0x47, 0x0D]"]
    validateImageBuffer_signatures [of "[0xFF, 0xD8, 0xFF, 0xE0]"]
    validateImageBuffer_signatures [of "[0x52, 0x49, 0x46, 0x46, 0x00]"]
    validateImageBuffer_signatures [of "[0x47, 0x49, 0x46, 0x38]"]
  by simp

text \<open>
  Claim C10, as stated, fails: the JPEG signature has three bytes, and the buffer that
  consists of exactly these three bytes is shorter than four bytes and classified as
  JPEG.
\<close>

theorem short_jpeg_counterexample:
  "length [0xFF, 0xD8, 0xFF :: byte] < 4 \<and>
   validateImageBuffer [0xFF, 0xD8, 0xFF] = (True, Some ''image/jpeg'')"
  by (simp add: validateImageBuffer_def byte_at_def)

text \<open>
  Claim C10, amended. The classifier is total: on every buffer shorter than four
  bytes, the empty one included, it returns a result without failing; the result is
  invalid (\<open>valid: false\<close>, \<open>type: null\<close>) unless the buffer is exactly \<open>FF D8 FF\<close>, which is
  JPEG. Such a buffer is never classified as PNG or WebP.
\<close>

theorem validateImageBuffer_short:
  "length b < 4 \<Longrightarrow>
   validateImageBuffer b =
     (if b = [0xFF, 0xD8, 0xFF] then (True, Some ''image/jpeg'') else (False, None))"
  by (cases b rule: list4_cases) (auto simp: validateImageBuffer_def byte_at_def)

theorem validateImageBuffer_short_witness:
  "length [0x89, 0x50, 0x4E :: byte] < 4 \<and> validateImageBuffer [0x89, 0x50, 0x4E] = (False, None) \<and>
   validateImageBuffer [] = (False, None)"
  using validateImageBuffer_short [of "[0x89, 0x50, 0x4E]"] validateImageBuffer_short [of "[]"]
  by simp

section \<open>Validation of the session identifier by the create-archive endpoint\<close>

text \<open>
  Claim C5. When the \<open>sessionId\<close> of the request is a string that is not exactly 64
  lowercase hexadecimal characters, the create-archive endpoint answers with status
  400 and the file system it returns is the one it was given: no directory is created
  and no file is written, whatever the files of the request are.
\<close>

theorem create_zip_rejects_malformed_session:
  "\<not> (length sid = 64 \<and> (\<forall>c \<in> set sid. c \<in> set ''0123456789abcdef'')) \<Longrightarrow>
   create_zip l cfg fs \<lparr>sessionId = Some sid, files = fl\<rparr> evs =
     (Reply 400 ''Invalid session ID'', fs)"
  by (simp add: create_zip_def isValidSessionId_iff)

theorem create_zip_rejects_malformed_session_witness:
  "\<not> (length ''../../etc'' = 64 \<and> (\<forall>c \<in> set ''../../etc''. c \<in> set ''0123456789abcdef'')) \<and>
   create_zip example_lib example_cfg root_only
     \<lparr>sessionId = Some ''../../etc'',
      files = Some [\<lparr>fpath = Some ''a.json'', content = JStr ''{}'', ftype = ''text''\<rparr>]\<rparr> [ZClose] =
     (Reply 400 ''Invalid session ID'', root_only)"
  using create_zip_rejects_malformed_session [of "''../../etc''" example_lib example_cfg root_only
     "Some [\<lparr>fpath = Some ''a.json'', content = JStr ''{}'', ftype = ''text''\<rparr>]" "[ZClose]"]
  by simp

section \<open>The image proxy\<close>

lemma allowed_hosts_not_private:
  "\<not> isPrivateIP ''drive.google.com''" "\<not> isPrivateIP ''lh3.googleusercontent.com''"
  by (simp_all add: isPrivateIP_def class_b_private_def)

lemma private_host_not_allowed:
  "isPrivateIP h \<Longrightarrow> hostname url = Some h \<Longrightarrow> \<not> isAllowedDomain hostname url"
  using allowed_hosts_not_private by (auto simp: isAllowedDomain_def)

text \<open>
  Claim C3. When the hostname of the requested URL matches one of the private,
  loopback or link-local patterns of \<open>isPrivateIP\<close>, the proxy handler never reaches
  its fetch: it answers with a 4xx status, and with 403 when the URL is a non-empty
  string that passes the HTTPS syntax check. The handler decides this with its
  allow-list of two hostnames, neither of which matches a private pattern.
\<close>

theorem proxy_rejects_private_hosts:
  "hostname url = Some h \<Longrightarrow> isPrivateIP h \<Longrightarrow>
   (\<forall>u. proxy_image isURL hostname (Some url) \<noteq> Fetch u) \<and>
   (url \<noteq> [] \<and> isURL url \<longrightarrow>
      proxy_image isURL hostname (Some url) = Respond 403 ''Domain not allowed'')"
  using private_host_not_allowed [of h hostname url] by (simp add: proxy_image_def)

theorem proxy_rejects_private_hosts_witness:
  "authority_host ''https://127.0.0.1/a.png'' = Some ''127.0.0.1'' \<and> isPrivateIP ''127.0.0.1'' \<and>
   proxy_image (prefix ''https://'') authority_host (Some ''https://127.0.0.1/a.png'') =
     Respond 403 ''Domain not allowed'' \<and>
   authority_host ''https://169.254.0.1/a.png'' = Some ''169.254.0.1'' \<and> isPrivateIP ''169.254.0.1'' \<and>
   proxy_image (prefix ''https://'') authority_host (Some ''https://169.254.0.1/a.png'') =
     Respond 403 ''Domain not allowed''"
proof -
  have h1: "authority_host ''https://127.0.0.1/a.png'' = Some ''127.0.0.1''"
    by (simp add: authority_host_def slash_def)
  have p1: "isPrivateIP ''127.0.0.1''"
    by (simp add: isPrivateIP_def)
  have h2: "authority_host ''https://169.254.0.1/a.png'' = Some ''169.254.0.1''"
    by (simp add: authority_host_def slash_def)
  have p2: "isPrivateIP ''169.254.0.1''"
    by (simp add: isPrivateIP_def class_b_private_def)
  show ?thesis
    using proxy_rejects_private_hosts [of authority_host "''https://127.0.0.1/a.png''"
        "''127.0.0.1''" "prefix ''https://''"]
      proxy_rejects_private_hosts [of authority_host "''https://169.254.0.1/a.png''"
        "''169.254.0.1''" "prefix ''https://''"] h1 p1 h2 p2
    by simp
qed

lemma matches_at_0:
  "matches_at lit url 0 = (prefix lit url \<and> takeWhile is_idchar (drop (length lit) url) \<noteq> [])"
  by (cases "drop (length lit) url") (simp_all add: matches_at_def)

lemma matches_at_Suc: "matches_at lit (c # s) (Suc k) = matches_at lit s k"
  by (simp add: matches_at_def)

lemma matches_at_Nil: "\<not> matches_at lit [] n"
  by (simp add: matches_at_def)

lemma find_id_first:
  "matches_at lit url n \<Longrightarrow> (\<forall>k<n. \<not> matches_at lit url k) \<Longrightarrow>
   find_id lit url = Some (takeWhile is_idchar (drop (n + length lit) url))"
proof (induction url arbitrary: n)
  case Nil
  then show ?case by (simp add: matches_at_Nil)
next
  case (Cons c s)
  show ?case
  proof (cases n)
    case 0
    with Cons.prems(1) show ?thesis
      by (simp add: matches_at_0 Let_def)
  next
    case (Suc m)
    with Cons.prems(2) have "\<not> matches_at lit (c # s) 0" by simp
    then have skip: "find_id lit (c # s) = find_id lit s"
      by (auto simp: matches_at_0 Let_def)
    have here: "matches_at lit s m"
      using Cons.prems(1) Suc by (simp add: matches_at_Suc)
    have "\<not> matches_at lit s k" if "k < m" for k
      using Cons.prems(2) [rule_format, of "Suc k"] that Suc by (simp add: matches_at_Suc)
    with Cons.IH [OF here] skip Suc show ?thesis by simp
  qed
qed

lemma find_id_none:
  "(\<forall>k<length url. \<not> matches_at lit url k) \<Longrightarrow> find_id lit url = None"
proof (induction url)
  case Nil
  then show ?case by simp
next
  case (Cons c s)
  have "\<not> matches_at lit (c # s) 0" using Cons.prems by simp
  then have skip: "find_id lit (c # s) = find_id lit s"
    by (auto simp: matches_at_0 Let_def)
  have "\<not> matches_at lit s k" if "k < length s" for k
    using Cons.prems [rule_format, of "Suc k"] that by (simp add: matches_at_Suc)
  with Cons.IH skip show ?case by simp
qed

lemma takeWhile_id_run:
  assumes "list_all is_idchar fid" "rest = [] \<or> \<not> is_idchar (hd rest)"
  shows "takeWhile is_idchar (fid @ rest) = fid"
proof (cases rest)
  case Nil
  then show ?thesis using assms(1) by (simp add: list_all_iff)
next
  case (Cons r rs)
  with assms(2) have "\<not> is_idchar r" by simp
  then show ?thesis using assms(1) Cons
    by (simp add: list_all_iff takeWhile_append2)
qed

lemma matches_at_shape:
  assumes "fid \<noteq> []" "list_all is_idchar fid"
  shows "matches_at lit (pre @ lit @ fid @ rest) (length pre)"
  using assms by (cases fid) (simp_all add: matches_at_def)

lemma list_all_uptD: "list_all P [0..<n] \<Longrightarrow> \<forall>k<n. P k"
  by (simp add: list_all_iff)

lemma find_id_leftmost:
  assumes "fid \<noteq> []" "list_all is_idchar fid" "rest = [] \<or> \<not> is_idchar (hd rest)"
    and "list_all (\<lambda>k. \<not> matches_at lit (pre @ lit @ fid @ rest) k) [0..<length pre]"
  shows "find_id lit (pre @ lit @ fid @ rest) = Some fid"
proof -
  have "\<forall>k<length pre. \<not> matches_at lit (pre @ lit @ fid @ rest) k"
    by (rule list_all_uptD [OF assms(4)])
  from find_id_first [OF matches_at_shape [OF assms(1,2)] this]
  show ?thesis
    using takeWhile_id_run [OF assms(2,3)] by simp
qed

text \<open>
  Claim C6, amended. Let \<open>fid\<close> be a non-empty run of characters of the identifier
  alphabet that ends where the URL ends or a character outside the alphabet follows.
  A URL that carries \<open>drive.google.com/file/d/\<close> followed by \<open>fid\<close>, with no earlier
  match of the \<open>/file/d/\<close> pattern, is rewritten to
  \<open>https://drive.google.com/uc?export=download&id=<fid>&confirm=t\<close>: the identifier is
  kept and nothing else of the URL. A URL that carries \<open>drive.google.com/open?id=\<close>
  followed by \<open>fid\<close>, with no earlier match of the \<open>open?id=\<close> pattern, is rewritten to
  the same URL of \<open>fid\<close> provided that the \<open>/file/d/\<close> pattern matches nowhere in it.
  And \<open>https://drive.google.com/file/d/ABC123/view\<close> is rewritten to
  \<open>https://drive.google.com/uc?export=download&id=ABC123&confirm=t\<close>.
\<close>

theorem rewriteUrl_leftmost_share_link:
  assumes "fid \<noteq> []" and "list_all is_idchar fid" and "rest = [] \<or> \<not> is_idchar (hd rest)"
  shows
   "(list_all (\<lambda>k. \<not> matches_at ''drive.google.com/file/d/''
                     (pre @ ''drive.google.com/file/d/'' @ fid @ rest) k) [0..<length pre] \<longrightarrow>
       rewriteUrl (pre @ ''drive.google.com/file/d/'' @ fid @ rest) =
         ''https://drive.google.com/uc?export=download&id='' @ fid @ ''&confirm=t'') \<and>
    (list_all (\<lambda>k. \<not> matches_at ''drive.google.com/file/d/''
                     (pre @ ''drive.google.com/open?id='' @ fid @ rest) k)
        [0..<length (pre @ ''drive.google.com/open?id='' @ fid @ rest)] \<and>
     list_all (\<lambda>k. \<not> matches_at ''drive.google.com/open?id=''
                     (pre @ ''drive.google.com/open?id='' @ fid @ rest) k) [0..<length pre] \<longrightarrow>
       rewriteUrl (pre @ ''drive.google.com/open?id='' @ fid @ rest) =
         ''https://drive.google.com/uc?export=download&id='' @ fid @ ''&confirm=t'') \<and>
    rewriteUrl ''https://drive.google.com/file/d/ABC123/view'' =
      ''https://drive.google.com/uc?export=download&id=ABC123&confirm=t''"
proof (intro conjI impI)
  assume "list_all (\<lambda>k. \<not> matches_at ''drive.google.com/file/d/''
                     (pre @ ''drive.google.com/file/d/'' @ fid @ rest) k) [0..<length pre]"
  from find_id_leftmost [OF assms this]
  show "rewriteUrl (pre @ ''drive.google.com/file/d/'' @ fid @ rest) =
         ''https://drive.google.com/uc?export=download&id='' @ fid @ ''&confirm=t''"
    by (simp add: rewriteUrl_def driveUrl_def)
next
  let ?url = "pre @ ''drive.google.com/open?id='' @ fid @ rest"
  assume a: "list_all (\<lambda>k. \<not> matches_at ''drive.google.com/file/d/'' ?url k) [0..<length ?url] \<and>
     list_all (\<lambda>k. \<not> matches_at ''drive.google.com/open?id='' ?url k) [0..<length pre]"
  have none: "find_id ''drive.google.com/file/d/'' ?url = None"
    by (rule find_id_none [OF list_all_uptD [OF conjunct1 [OF a]]])
  have "list_all (\<lambda>k. \<not> matches_at ''drive.google.com/open?id='' ?url k) [0..<length pre]"
    by (rule conjunct2 [OF a])
  from find_id_leftmost [OF assms this] none
  show "rewriteUrl ?url = ''https://drive.google.com/uc?export=download&id='' @ fid @ ''&confirm=t''"
    by (simp add: rewriteUrl_def driveUrl_def)
next
  show "rewriteUrl ''https://drive.google.com/file/d/ABC123/view'' =
      ''https://drive.google.com/uc?export=download&id=ABC123&confirm=t''"
    by code_simp
qed

theorem rewriteUrl_leftmost_share_link_witness:
  "''ABC-12_3'' \<noteq> [] \<and> list_all is_idchar ''ABC-12_3'' \<and> \<not> is_idchar (hd ''/view?usp=sharing'') \<and>
   list_all (\<lambda>k. \<not> matches_at ''drive.google.com/file/d/''
                    (''https://'' @ ''drive.google.com/file/d/'' @ ''ABC-12_3'' @ ''/view?usp=sharing'') k)
     [0..<length ''https://''] \<and>
   rewriteUrl (''https://'' @ ''drive.google.com/file/d/'' @ ''ABC-12_3'' @ ''/view?usp=sharing'') =
     ''https://drive.google.com/uc?export=download&id='' @ ''ABC-12_3'' @ ''&confirm=t'' \<and>
   list_all (\<lambda>k. \<not> matches_at ''drive.google.com/file/d/''
                    (''https://'' @ ''drive.google.com/open?id='' @ ''ABC-12_3'' @ ''/view?usp=sharing'') k)
     [0..<length (''https://'' @ ''drive.google.com/open?id='' @ ''ABC-12_3'' @ ''/view?usp=sharing'')] \<and>
   list_all (\<lambda>k. \<not> matches_at ''drive.google.com/open?id=''
                    (''https://'' @ ''drive.google.com/open?id='' @ ''ABC-12_3'' @ ''/view?usp=sharing'') k)
     [0..<length ''https://''] \<and>
   rewriteUrl (''https://'' @ ''drive.google.com/open?id='' @ ''ABC-12_3'' @ ''/view?usp=sharing'') =
     ''https://drive.google.com/uc?export=download&id='' @ ''ABC-12_3'' @ ''&confirm=t''"
proof -
  have a: "''ABC-12_3'' \<noteq> []" by simp
  have b: "list_all is_idchar ''ABC-12_3''" by code_simp
  have c: "\<not> is_idchar (hd ''/view?usp=sharing'')" by code_simp
  have d: "list_all (\<lambda>k. \<not> matches_at ''drive.google.com/file/d/''
                    (''https://'' @ ''drive.google.com/file/d/'' @ ''ABC-12_3'' @ ''/view?usp=sharing'') k)
     [0..<length ''https://'']" by code_simp
  have e: "list_all (\<lambda>k. \<not> matches_at ''drive.google.com/file/d/''
                    (''https://'' @ ''drive.google.com/open?id='' @ ''ABC-12_3'' @ ''/view?usp=sharing'') k)
     [0..<length (''https://'' @ ''drive.google.com/open?id='' @ ''ABC-12_3'' @ ''/view?usp=sharing'')]"
    by code_simp
  have f: "list_all (\<lambda>k. \<not> matches_at ''drive.google.com/open?id=''
                    (''https://'' @ ''drive.google.com/open?id='' @ ''ABC-12_3'' @ ''/view?usp=sharing'') k)
     [0..<length ''https://'']" by code_simp
  have c': "''/view?usp=sharing'' = [] \<or> \<not> is_idchar (hd ''/view?usp=sharing'')"
    using c by blast
  note th = rewriteUrl_leftmost_share_link [OF a b c', of "''https://''"]
  from th d e f a b c show ?thesis by blast
qed

text \<open>
  Claim C6, as stated, fails for a URL of the \<open>open?id=\<close> shape in which the \<open>/file/d/\<close>
  pattern matches as well: the handler tries the \<open>/file/d/\<close> pattern first, anywhere
  in the URL. The URL below is of the shape \<open>open?id=OPEN1\<close>, and it is rewritten to
  the direct-download URL of \<open>FILE2\<close>, an identifier taken from its query.
\<close>

theorem open_id_link_carries_other_identifier:
  "find_id ''drive.google.com/open?id=''
     ''https://drive.google.com/open?id=OPEN1&x=drive.google.com/file/d/FILE2'' = Some ''OPEN1'' \<and>
   rewriteUrl ''https://drive.google.com/open?id=OPEN1&x=drive.google.com/file/d/FILE2'' =
     ''https://drive.google.com/uc?export=download&id=FILE2&confirm=t'' \<and>
   rewriteUrl ''https://drive.google.com/open?id=OPEN1&x=drive.google.com/file/d/FILE2'' \<noteq>
     ''https://drive.google.com/uc?export=download&id=OPEN1&confirm=t''"
  by code_simp

section \<open>Segments of normalized and sanitized paths\<close>

lemma slash_str: "''/'' = [slash]"
  by (simp add: slash_def)

lemma split_on_nonempty [simp]: "split_on c s \<noteq> []"
  by (induction s) (auto split: list.splits)

lemma split_on_Cons:
  "split_on sep (c # s) =
     (if c = sep then [] # split_on sep s
      else (c # hd (split_on sep s)) # tl (split_on sep s))"
  by (cases "split_on sep s") simp_all

declare split_on.simps(2) [simp del]

declare split_on_Cons [simp]

lemma hd_split_on: "hd (split_on c s) = takeWhile (\<lambda>x. x \<noteq> c) s"
  by (induction s) auto

lemma split_on_append_sep: "split_on c (a @ c # b) = split_on c a @ split_on c b"
proof (induction a)
  case Nil
  then show ?case by simp
next
  case (Cons x a)
  then show ?case by (cases "split_on c a") auto
qed

lemma split_on_no_sep: "c \<notin> set s \<Longrightarrow> split_on c s = [s]"
  by (induction s) auto

lemma split_on_segments: "x \<in> set (split_on c s) \<Longrightarrow> c \<notin> set x"
proof (induction s arbitrary: x)
  case Nil
  then show ?case by simp
next
  case (Cons a s)
  show ?case
  proof (cases "a = c")
    case True
    with Cons show ?thesis by auto
  next
    case False
    obtain h t where ht: "split_on c s = h # t"
      by (cases "split_on c s") auto
    with Cons.prems False have "x = a # h \<or> x \<in> set t" by auto
    then show ?thesis
      using Cons.IH [of h] Cons.IH [of x] ht False by auto
  qed
qed

lemma join_split: "join_with [c] (split_on c s) = s"
proof (induction s)
  case Nil
  then show ?case by simp
next
  case (Cons a s)
  obtain h t where ht: "split_on c s = h # t"
    by (cases "split_on c s") auto
  show ?case
  proof (cases "a = c")
    case True
    with Cons ht show ?thesis by simp
  next
    case False
    with Cons ht show ?thesis by (cases t) auto
  qed
qed

lemma join_with_Cons: "xs \<noteq> [] \<Longrightarrow> join_with sep (x # xs) = x @ sep @ join_with sep xs"
  by (cases xs) auto

lemma split_join:
  "xs \<noteq> [] \<Longrightarrow> \<forall>x \<in> set xs. c \<notin> set x \<Longrightarrow> split_on c (join_with [c] xs) = xs"
proof (induction xs)
  case Nil
  then show ?case by simp
next
  case (Cons x xs)
  show ?case
  proof (cases xs)
    case Nil
    with Cons.prems show ?thesis by (simp add: split_on_no_sep)
  next
    case (Cons y ys)
    with Cons.prems Cons.IH have "split_on c (join_with [c] xs) = xs" by simp
    moreover have "join_with [c] (x # xs) = x @ c # join_with [c] xs"
      using Cons by simp
    ultimately show ?thesis
      using Cons.prems by (simp add: split_on_append_sep split_on_no_sep)
  qed
qed

lemma abs_path_join: "xs \<noteq> [] \<Longrightarrow> slash # join_with [slash] xs = abs_path xs"
proof (induction xs)
  case Nil
  then show ?case by simp
next
  case (Cons x xs)
  then show ?case by (cases xs) (auto simp: abs_path_def)
qed

lemma abs_path_snoc: "abs_path (xs @ [x]) = abs_path xs @ slash # x"
  by (simp add: abs_path_def)

lemma split_abs_path:
  "\<forall>x \<in> set xs. slash \<notin> set x \<Longrightarrow> split_on slash (abs_path xs) = [] # xs"
proof (induction xs rule: rev_induct)
  case Nil
  then show ?case by (simp add: abs_path_def)
next
  case (snoc x xs)
  then show ?case
    by (simp add: abs_path_snoc split_on_append_sep split_on_no_sep)
qed

lemma normalizeSegs_no_dotdot:
  "''..'' \<notin> set ss \<Longrightarrow> normalizeSegs up acc ss = rev acc @ filter keep_seg ss"
  by (induction ss arbitrary: acc) (auto simp: keep_seg_def)

lemma normalizeSegs_proper:
  "\<forall>s \<in> set ss. proper s \<Longrightarrow> normalizeSegs up acc ss = rev acc @ ss"
  by (induction ss arbitrary: acc) (auto simp: proper_def)

lemma normalizeSegs_shape:
  assumes "\<forall>s \<in> set ss. slash \<notin> set s"
    and "acc = ns @ replicate k ''..''" and "\<forall>n \<in> set ns. proper n" and "up \<or> k = 0"
  shows "\<exists>k' ns'. normalizeSegs up acc ss = replicate k' ''..'' @ ns' \<and>
           (\<forall>n \<in> set ns'. proper n) \<and> (up \<or> k' = 0)"
  using assms
proof (induction ss arbitrary: acc ns k)
  case Nil
  have "rev acc = replicate k ''..'' @ rev ns"
    using Nil by simp
  then show ?case using Nil by fastforce
next
  case (Cons s ss)
  have ss: "\<forall>s \<in> set ss. slash \<notin> set s" using Cons.prems(1) by simp
  show ?case
  proof (cases "s = [] \<or> s = ''.''")
    case True
    then show ?thesis
      using Cons.IH [OF ss Cons.prems(2,3,4)] by auto
  next
    case skip: False
    show ?thesis
    proof (cases "s = ''..''")
      case False
      with skip Cons.prems(1) have "proper s" by (simp add: proper_def)
      then have "\<forall>n \<in> set (s # ns). proper n" using Cons.prems(3) by simp
      moreover have "s # acc = (s # ns) @ replicate k ''..''" using Cons.prems(2) by simp
      ultimately show ?thesis
        using Cons.IH [OF ss _ _ Cons.prems(4), of "s # acc" "s # ns"] False skip by auto
    next
      case dd: True
      show ?thesis
      proof (cases ns)
        case (Cons n ns')
        then have "n \<noteq> ''..''" using Cons.prems(3) by (auto simp: proper_def)
        moreover have "acc = n # (ns' @ replicate k ''..'')" using Cons.prems(2) Cons by simp
        moreover have "\<forall>n \<in> set ns'. proper n" using Cons.prems(3) Cons by simp
        ultimately show ?thesis
          using Cons.IH [OF ss _ _ Cons.prems(4), of "ns' @ replicate k ''..''" ns'] dd by auto
      next
        case Nil
        then have acc: "acc = replicate k ''..''" using Cons.prems(2) by simp
        show ?thesis
        proof (cases up)
          case True
          have "normalizeSegs up acc (s # ss) = normalizeSegs up (replicate (Suc k) ''..'') ss"
            using acc dd True by (cases k) auto
          moreover have "replicate (Suc k) ''..'' = [] @ replicate (Suc k) ''..''" by simp
          ultimately show ?thesis
            using Cons.IH [OF ss _ _ , of "replicate (Suc k) ''..''" "[]" "Suc k"] True by auto
        next
          case False
          with Cons.prems(4) have "k = 0" by simp
          with acc have "normalizeSegs up acc (s # ss) = normalizeSegs up [] ss"
            using dd False by simp
          then show ?thesis
            using Cons.IH [OF ss, of "[]" "[]" 0] False by auto
        qed
      qed
    qed
  qed
qed


lemma climbs_first_Cons:
  "climbs_first (x # ss) = (if x = ''..'' then climbs_first ss else ''..'' \<notin> set ss)"
  by (auto simp: climbs_first_def)

lemma climbs_first_intro: "''..'' \<notin> set rest \<Longrightarrow> climbs_first (replicate k ''..'' @ rest)"
proof (induction k)
  case 0
  then show ?case
    unfolding climbs_first_def by (auto dest: set_dropWhileD)
next
  case (Suc k)
  then show ?case by (simp add: climbs_first_Cons)
qed

lemma join_with_Nil_iff:
  "\<forall>x \<in> set xs. x \<noteq> [] \<Longrightarrow> (join_with sep xs = []) = (xs = [])"
proof (cases xs)
  case Nil
  then show ?thesis by simp
next
  case (Cons x ys)
  assume "\<forall>x \<in> set xs. x \<noteq> []"
  with Cons show ?thesis by (cases ys) auto
qed

lemma slash_not_dot [simp]: "slash \<noteq> CHR ''.''" "CHR ''.'' \<noteq> slash"
  by (simp_all add: slash_def)

lemma slash_not_backslash [simp]: "slash \<noteq> backslash" "backslash \<noteq> slash"
  by (simp_all add: slash_def backslash_def)

lemma proper_no_slash: "proper s \<Longrightarrow> slash \<notin> set s"
  by (simp add: proper_def)

lemma in_shape: "x \<in> set (replicate k d @ ns) \<Longrightarrow> x = d \<or> x \<in> set ns"
  by (auto split: if_splits)

lemma dotdot_seg: "''..'' \<noteq> []" "slash \<notin> set ''..''"
  by simp_all

lemma proper_nonempty: "proper s \<Longrightarrow> s \<noteq> []"
  by (simp add: proper_def)

lemma proper_not_dotdot: "proper s \<Longrightarrow> s \<noteq> ''..''"
  by (simp add: proper_def)

lemma shape_nonempty:
  assumes "\<forall>n \<in> set ns. proper n" and "x \<in> set (replicate k ''..'' @ ns)"
  shows "x \<noteq> []" and "slash \<notin> set x"
proof -
  from assms(2) have "x = ''..'' \<or> x \<in> set ns" by (rule in_shape)
  then show "x \<noteq> []" using assms(1) dotdot_seg(1) proper_nonempty by blast
  from \<open>x = ''..'' \<or> x \<in> set ns\<close> show "slash \<notin> set x"
    using assms(1) dotdot_seg(2) proper_no_slash by blast
qed

lemma normalize_segments:
  "climbs_first (split_on slash (path_normalize p))"
proof (cases "p = []")
  case True
  then show ?thesis
    by (simp add: path_normalize_def climbs_first_def slash_def)
next
  case False
  let ?up = "\<not> isAbsolute p"
  let ?N = "normalizeSegs ?up [] (split_on slash p)"
  have segs: "\<forall>s \<in> set (split_on slash p). slash \<notin> set s"
    using split_on_segments by blast
  obtain k ns where N: "?N = replicate k ''..'' @ ns" and ns: "\<forall>n \<in> set ns. proper n"
    and k: "?up \<or> k = 0"
    using normalizeSegs_shape [OF segs, of "[]" "[]" 0 ?up] by auto
  have nonempty: "\<forall>x \<in> set ?N. x \<noteq> []"
    unfolding N using shape_nonempty(1) [OF ns] by blast
  have noslash: "\<forall>x \<in> set ?N. slash \<notin> set x"
    unfolding N using shape_nonempty(2) [OF ns] by blast
  have nodd: "''..'' \<notin> set ns"
    using ns proper_not_dotdot by blast
  let ?r = "join_with [slash] ?N"
  have r: "normalizeString p ?up = ?r"
    by (simp add: normalizeString_def slash_str)
  show ?thesis
  proof (cases "?N = []")
    case True
    then have "?r = []" by simp
    then show ?thesis
      using False r by (simp add: path_normalize_def climbs_first_def slash_def Let_def)
  next
    case Nne: False
    then have rne: "?r \<noteq> []"
      using join_with_Nil_iff [OF nonempty] by simp
    have sp: "split_on slash ?r = ?N"
      by (rule split_join [OF Nne noslash])
    have sp2: "split_on slash (?r @ [slash]) = ?N @ [[]]"
      using split_on_append_sep [of slash ?r "[]"] sp by simp
    show ?thesis
    proof (cases "isAbsolute p")
      case True
      with k have N': "?N = ns" using N by simp
      have "path_normalize p = slash # ?r @ (if last p = slash then [slash] else [])"
        using False rne r True by (simp add: path_normalize_def Let_def slash_str)
      then have "split_on slash (path_normalize p) = [] # ?N @ (if last p = slash then [[]] else [])"
        using sp sp2 by simp
      then show ?thesis
        using nodd unfolding N' by (simp add: climbs_first_Cons)
    next
      case rel: False
      have "path_normalize p = ?r @ (if last p = slash then [slash] else [])"
        using False rne r rel by (simp add: path_normalize_def Let_def slash_str)
      then have "split_on slash (path_normalize p) =
                   replicate k ''..'' @ (ns @ (if last p = slash then [[]] else []))"
        using sp sp2 N by simp
      moreover have "''..'' \<notin> set (ns @ (if last p = slash then [[]] else []))"
        using nodd by simp
      ultimately show ?thesis
        using climbs_first_intro by metis
    qed
  qed
qed

lemma split_on_Cons_other:
  "a \<noteq> c \<Longrightarrow> split_on c (a # s) = (a # hd (split_on c s)) # tl (split_on c s)"
  by simp

lemma strip_segments:
  "climbs_first (split_on slash s) \<Longrightarrow>
   split_on slash (strip_dotdot s) = [''..''] \<or> ''..'' \<notin> set (split_on slash (strip_dotdot s))"
proof (induction s rule: strip_dotdot.induct)
  case (1 a b c s)
  show ?case
  proof (cases "a = CHR ''.'' \<and> b = CHR ''.'' \<and> (c = slash \<or> c = backslash)")
    case True
    then have ab: "a = CHR ''.''" "b = CHR ''.''" by simp_all
    have "climbs_first (split_on slash s)"
    proof (cases "c = slash")
      case True
      then have "split_on slash (a # b # c # s) = ''..'' # split_on slash s"
        using ab by simp
      with "1.prems" show ?thesis by (simp add: climbs_first_Cons)
    next
      case False
      with True have c: "c = backslash" by simp
      obtain h t where ht: "split_on slash s = h # t"
        by (cases "split_on slash s") auto
      have "split_on slash (a # b # c # s) = (a # b # c # h) # t"
        using ab c ht by simp
      with "1.prems" have "''..'' \<notin> set t"
        by (simp add: climbs_first_Cons)
      then show ?thesis
        unfolding ht by (simp add: climbs_first_Cons climbs_first_def) (meson set_dropWhileD)
    qed
    with "1.IH" True show ?thesis by simp
  next
    case False
    have "hd (split_on slash (a # b # c # s)) \<noteq> ''..''"
      using False by (auto simp: hd_split_on)
    moreover obtain h t where ht: "split_on slash (a # b # c # s) = h # t"
      by (meson split_on_nonempty neq_Nil_conv)
    ultimately have "''..'' \<notin> set (split_on slash (a # b # c # s))"
      using "1.prems" unfolding ht by (simp add: climbs_first_Cons)
    then show ?thesis using False by auto
  qed
qed (auto simp: climbs_first_Cons split: if_splits)

lemma sanitizePath_eq: "sanitizePath p = strip_dotdot (path_normalize p)"
  by (simp add: sanitizePath_def slash_str join_split)

lemma sanitizePath_segments:
  "split_on slash (sanitizePath p) = [''..''] \<or> ''..'' \<notin> set (split_on slash (sanitizePath p))"
  unfolding sanitizePath_eq by (rule strip_segments [OF normalize_segments])

section \<open>Joining a sanitized path to an absolute directory\<close>

lemma proper_keep: "proper s \<Longrightarrow> keep_seg s"
  by (simp add: proper_def keep_seg_def)

lemma filter_keep_proper: "\<forall>x \<in> set xs. proper x \<Longrightarrow> filter keep_seg xs = xs"
  by (induction xs) (simp_all add: proper_keep)

lemma normalizeSegs_append_proper:
  "\<forall>s \<in> set xs. proper s \<Longrightarrow> normalizeSegs up acc (xs @ ys) = normalizeSegs up (rev xs @ acc) ys"
proof (induction xs arbitrary: acc)
  case Nil
  then show ?case by simp
next
  case (Cons x xs)
  from Cons.prems have "x \<noteq> []" "x \<noteq> ''.''" "x \<noteq> ''..''"
    by (simp_all add: proper_def)
  then show ?case using Cons by simp
qed

lemma split_abs_path_tail:
  assumes "\<forall>x \<in> set xs. proper x" and "t = [] \<or> t = [slash]"
  shows "split_on slash (abs_path xs @ t) = [] # xs @ (if t = [] then [] else [[]])"
proof -
  have sp: "split_on slash (abs_path xs) = [] # xs"
    using assms(1) proper_no_slash by (intro split_abs_path) blast
  show ?thesis
  proof (cases "t = []")
    case True
    then show ?thesis using sp by simp
  next
    case False
    with assms(2) have "t = [slash]" by simp
    then show ?thesis
      using split_on_append_sep [of slash "abs_path xs" "[]"] sp by simp
  qed
qed

lemma fs_key_abs_path:
  assumes "\<forall>x \<in> set xs. proper x" and "t = [] \<or> t = [slash]"
  shows "fs_key (abs_path xs @ t) = xs"
proof -
  have nd: "''..'' \<notin> set ([] # xs @ (if t = [] then [] else [[]]))"
    using assms(1) proper_not_dotdot by auto
  have "normalizeSegs False [] ([] # xs @ (if t = [] then [] else [[]])) =
               rev [] @ filter keep_seg ([] # xs @ (if t = [] then [] else [[]]))"
    by (rule normalizeSegs_no_dotdot [OF nd])
  also have "\<dots> = xs"
    using filter_keep_proper [OF assms(1)] by (simp add: keep_seg_def)
  finally show ?thesis
    unfolding fs_key_def split_abs_path_tail [OF assms] .
qed

lemma abs_path_Nil_iff: "(abs_path xs = []) = (xs = [])"
  by (cases xs) (simp_all add: abs_path_def)

lemma hd_abs_path: "xs \<noteq> [] \<Longrightarrow> hd (abs_path xs) = slash"
  by (cases xs) (simp_all add: abs_path_def)

lemma isAbsolute_abs_path:
  "xs \<noteq> [] \<or> t = [slash] \<Longrightarrow> isAbsolute (abs_path xs @ t)"
  by (cases xs) (auto simp: isAbsolute_def abs_path_def)

lemma path_resolve_abs_path:
  assumes "\<forall>x \<in> set xs. proper x" and "t = [] \<or> t = [slash]" and "xs \<noteq> [] \<or> t = [slash]"
  shows "path_resolve wd (abs_path xs @ t) = slash # join_with [slash] xs"
  using fs_key_abs_path [OF assms(1,2)] isAbsolute_abs_path [OF assms(3)]
  by (simp add: path_resolve_def normalizeString_def fs_key_def slash_str)

lemma path_resolve_abs_path_id:
  assumes "\<forall>x \<in> set xs. proper x" and "xs \<noteq> []"
  shows "path_resolve wd (abs_path xs) = abs_path xs"
  using path_resolve_abs_path [OF assms(1), of "[]" wd] assms(2) abs_path_join by simp

lemma length_abs_path_butlast:
  assumes "xs \<noteq> []" and "\<forall>x \<in> set xs. proper x"
  shows "length (slash # join_with [slash] (butlast xs)) < length (abs_path xs)"
proof -
  have xs: "xs = butlast xs @ [last xs]" using assms(1) by simp
  have "last xs \<noteq> []" using assms proper_nonempty by auto
  then have "length (abs_path (butlast xs)) + 2 \<le> length (abs_path (butlast xs @ [last xs]))"
    by (cases "last xs") (simp_all add: abs_path_snoc)
  then have le: "length (abs_path (butlast xs)) + 2 \<le> length (abs_path xs)"
    using xs by simp
  show ?thesis
  proof (cases "butlast xs = []")
    case True
    then show ?thesis using le by simp
  next
    case False
    then show ?thesis using le abs_path_join [OF False] by simp
  qed
qed

lemma path_join_abs:
  assumes segs: "\<forall>x \<in> set segs. proper x" "segs \<noteq> []" and r: "r \<noteq> []"
    and Mdef: "M = normalizeSegs False (rev segs) (split_on slash r)"
  shows "\<exists>t. (t = [] \<or> t = [slash]) \<and> (M \<noteq> [] \<or> t = [slash]) \<and> (\<forall>n \<in> set M. proper n) \<and>
           path_join (abs_path segs) r = abs_path M @ t \<and>
           (M \<noteq> [] \<longrightarrow> t = (if last r = slash then [slash] else []))"
proof -
  let ?o = "abs_path segs"
  let ?p = "?o @ slash # r"
  have one: "?o \<noteq> []" using segs(2) by (simp add: abs_path_Nil_iff)
  have join: "path_join ?o r = path_normalize ?p"
    using one r by (simp add: path_join_def slash_str)
  have abs: "isAbsolute ?p"
    using one hd_abs_path [OF segs(2)] by (simp add: isAbsolute_def)
  have "split_on slash ?p = ([] # segs) @ split_on slash r"
    using split_abs_path_tail [OF segs(1), of "[]"] by (simp add: split_on_append_sep)
  then have M: "normalizeSegs False [] (split_on slash ?p) = M"
    using normalizeSegs_append_proper [OF segs(1), of False "[]" "split_on slash r"] Mdef by simp
  have lastp: "last ?p = last r" using r by simp
  obtain k ns where "M = replicate k ''..'' @ ns" and ns: "\<forall>n \<in> set ns. proper n" and "k = 0"
    using normalizeSegs_shape [of "split_on slash r" "rev segs" "rev segs" 0 False]
      segs(1) split_on_segments Mdef by auto
  then have Mns: "M = ns" by simp
  have allproper: "\<forall>n \<in> set M. proper n"
    unfolding Mns using ns .
  have nonempty: "\<forall>x \<in> set M. x \<noteq> []"
    using allproper proper_nonempty by blast
  show ?thesis
  proof (cases "M = []")
    case True
    then have "path_normalize ?p = [slash]"
      using abs M by (simp add: path_normalize_def normalizeString_def slash_str)
    then show ?thesis using join True by (simp add: abs_path_def)
  next
    case False
    then have jne: "join_with [slash] M \<noteq> []"
      using join_with_Nil_iff [OF nonempty] by simp
    have "path_normalize ?p = slash # join_with [slash] M @ (if last r = slash then [slash] else [])"
      using abs M jne lastp by (simp add: path_normalize_def normalizeString_def slash_str Let_def)
    then have "path_join ?o r = abs_path M @ (if last r = slash then [slash] else [])"
      using join abs_path_join [OF False] by simp
    then show ?thesis using False allproper by auto
  qed
qed

lemma normalizeSegs_climb_out:
  assumes "\<forall>x \<in> set segs. proper x" and "segs \<noteq> []"
  shows "normalizeSegs False (rev segs) [''..''] = butlast segs"
proof -
  have "segs = butlast segs @ [last segs]"
    using assms(2) by simp
  then have e: "rev segs = last segs # rev (butlast segs)"
    by (metis rev.simps(2) rev_append rev_rev_ident append_Cons append_Nil rev_singleton_conv)
  have nd: "last segs \<noteq> ''..''"
    using assms proper_not_dotdot by auto
  show ?thesis
    unfolding e using nd by simp
qed

lemma split_segments_proper:
  "x \<in> set (filter keep_seg (split_on slash r)) \<Longrightarrow> ''..'' \<notin> set (split_on slash r) \<Longrightarrow> proper x"
  using split_on_segments [of x slash r] by (auto simp: proper_def keep_seg_def)

lemma sanitized_target:
  assumes segs: "\<forall>x \<in> set segs. proper x" "segs \<noteq> []"
    and r: "sanitizePath p \<noteq> []"
    and ok: "validatePath wd (abs_path segs) (path_join (abs_path segs) (sanitizePath p))"
  shows "\<exists>rest t. (\<forall>s \<in> set rest. proper s) \<and> (t = [] \<or> t = [slash]) \<and>
           path_join (abs_path segs) (sanitizePath p) = abs_path (segs @ rest) @ t \<and>
           path_resolve wd (path_join (abs_path segs) (sanitizePath p)) = abs_path (segs @ rest)"
proof -
  let ?r = "sanitizePath p"
  let ?full = "path_join (abs_path segs) ?r"
  define M where "M = normalizeSegs False (rev segs) (split_on slash ?r)"
  obtain t where t: "t = [] \<or> t = [slash]" "M \<noteq> [] \<or> t = [slash]"
    and M: "\<forall>n \<in> set M. proper n" and full: "?full = abs_path M @ t"
    using path_join_abs [OF segs r M_def] by blast
  have res: "path_resolve wd ?full = slash # join_with [slash] M"
    unfolding full by (rule path_resolve_abs_path [OF M t])
  have base: "path_resolve wd (abs_path segs) = abs_path segs"
    by (rule path_resolve_abs_path_id [OF segs])
  from ok have pre: "prefix (abs_path segs) (slash # join_with [slash] M)"
    by (simp add: validatePath_def res base)
  have "''..'' \<notin> set (split_on slash ?r)"
  proof
    assume "''..'' \<in> set (split_on slash ?r)"
    with sanitizePath_segments [of p] have "split_on slash ?r = [''..'']" by blast
    then have "M = butlast segs"
      using normalizeSegs_climb_out [OF segs] M_def by simp
    with pre have "length (abs_path segs) \<le> length (slash # join_with [slash] (butlast segs))"
      using prefix_length_le by blast
    with length_abs_path_butlast [OF segs(2,1)] show False by simp
  qed
  then have Meq: "M = segs @ filter keep_seg (split_on slash ?r)"
    unfolding M_def using normalizeSegs_no_dotdot [of "split_on slash ?r" False "rev segs"] by simp
  let ?rest = "filter keep_seg (split_on slash ?r)"
  have rest: "\<forall>s \<in> set ?rest. proper s"
    using split_segments_proper \<open>''..'' \<notin> set (split_on slash ?r)\<close> by blast
  have "M \<noteq> []" using Meq segs(2) by simp
  then have "path_resolve wd ?full = abs_path M"
    using res abs_path_join by simp
  then show ?thesis
    using rest t(1) full Meq by blast
qed

lemma entry_target_Some:
  "entry_target wd outputDir filePath = Some fullPath \<Longrightarrow>
   sanitizePath filePath \<noteq> [] \<and> length (sanitizePath filePath) \<le> 255 \<and>
   fullPath = path_join outputDir (sanitizePath filePath) \<and>
   validatePath wd outputDir fullPath \<and> isAllowedFileExtension fullPath"
  by (simp add: entry_target_def Let_def split: if_splits)

section \<open>What the file loop can change on disk\<close>

lemma mkdirp_changes:
  "mkdirp fs pre todo = Inr fs' \<Longrightarrow> fs' k \<noteq> fs k \<Longrightarrow>
   fs k = None \<and> fs' k = Some Dir \<and> prefix k (pre @ todo)"
proof (induction todo arbitrary: fs pre)
  case Nil
  then show ?case by simp
next
  case (Cons s ss)
  show ?case
  proof (cases "fs (pre @ [s])")
    case None
    let ?fs1 = "fs(pre @ [s] \<mapsto> Dir)"
    from Cons.prems(1) None have run: "mkdirp ?fs1 (pre @ [s]) ss = Inr fs'" by simp
    show ?thesis
    proof (cases "fs' k = ?fs1 k")
      case True
      with Cons.prems(2) have "k = pre @ [s]" by (auto split: if_splits)
      then show ?thesis using None True by simp
    next
      case False
      from Cons.IH [OF run False] show ?thesis by (auto split: if_splits)
    qed
  next
    case (Some n)
    show ?thesis
    proof (cases n)
      case Dir
      with Cons.prems(1) Some have "mkdirp fs (pre @ [s]) ss = Inr fs'" by simp
      from Cons.IH [OF this Cons.prems(2)] show ?thesis by simp
    next
      case (File b)
      with Cons.prems(1) Some show ?thesis by simp
    qed
  qed
qed

lemma writeFileSync_changes:
  "writeFileSync fs p b = Inr fs' \<Longrightarrow> fs' k \<noteq> fs k \<Longrightarrow> k = fs_key p \<and> fs k \<noteq> Some Dir"
  by (auto simp: writeFileSync_def Let_def split: if_splits option.splits node.splits)

lemma dropWhile_slash_tail:
  assumes "t = [] \<or> t = [slash]" and "w \<noteq> []" and "hd w \<noteq> slash"
  shows "dropWhile (\<lambda>c. c = slash) (rev t @ w) = w"
  using assms by (cases w) auto

lemma path_dirname_abs:
  assumes "\<forall>x \<in> set (ys @ [z]). proper x" and "t = [] \<or> t = [slash]"
  shows "path_dirname (abs_path (ys @ [z]) @ t) = (if ys = [] then [slash] else abs_path ys)"
proof -
  have z: "z \<noteq> []" "slash \<notin> set z"
    using assms(1) by (simp_all add: proper_def)
  then have hz: "rev z \<noteq> []" "hd (rev z) \<noteq> slash"
    by (simp_all add: hd_rev) (metis last_in_set)
  have noz: "\<And>c. c \<in> set (rev z) \<Longrightarrow> c \<noteq> slash"
    using z(2) by auto
  show ?thesis
  proof (cases ys)
    case Nil
    then have p: "abs_path (ys @ [z]) @ t = slash # z @ t"
      by (simp add: abs_path_def)
    have "dropWhile (\<lambda>c. c = slash) (rev (z @ t)) = rev z"
      using dropWhile_slash_tail [OF assms(2) hz] by simp
    moreover have "dropWhile (\<lambda>c. c \<noteq> slash) (rev z) = []"
      using noz by simp
    ultimately show ?thesis
      unfolding p using Nil by (simp add: path_dirname_def slash_str)
  next
    case (Cons y ys')
    define u where "u = y @ abs_path ys'"
    have y: "y \<noteq> []" using assms(1) Cons by (simp add: proper_def)
    then have une: "u \<noteq> []" by (simp add: u_def)
    have ays: "abs_path ys = slash # u"
      using Cons by (simp add: abs_path_def u_def)
    have p: "abs_path (ys @ [z]) @ t = slash # (u @ slash # z @ t)"
      by (simp add: abs_path_snoc ays)
    have "rev (u @ slash # z @ t) = rev t @ (rev z @ slash # rev u)"
      by simp
    moreover have "rev z @ slash # rev u \<noteq> []" "hd (rev z @ slash # rev u) \<noteq> slash"
      using hz by simp_all
    ultimately have d1: "dropWhile (\<lambda>c. c = slash) (rev (u @ slash # z @ t)) = rev z @ slash # rev u"
      using dropWhile_slash_tail [OF assms(2)] by metis
    have "dropWhile (\<lambda>c. c \<noteq> slash) (rev z @ slash # rev u) =
            dropWhile (\<lambda>c. c \<noteq> slash) (slash # rev u)"
      by (rule dropWhile_append2) (use noz in blast)
    then have d2: "dropWhile (\<lambda>c. c \<noteq> slash) (rev z @ slash # rev u) = slash # rev u"
      by simp
    show ?thesis
      unfolding p using d1 d2 une Cons ays by (simp add: path_dirname_def slash_str)
  qed
qed

lemma fs_key_root: "fs_key [slash] = []"
  by (simp add: fs_key_def)

lemma fs_key_dirname:
  assumes "\<forall>x \<in> set xs. proper x" and "xs \<noteq> []" and "t = [] \<or> t = [slash]"
  shows "fs_key (path_dirname (abs_path xs @ t)) = butlast xs"
proof -
  have xs: "xs = butlast xs @ [last xs]" using assms(2) by simp
  have pr: "\<forall>x \<in> set (butlast xs @ [last xs]). proper x" using assms(1) xs by simp
  have bl: "\<forall>x \<in> set (butlast xs). proper x" using assms(1) by (meson in_set_butlastD)
  have "path_dirname (abs_path (butlast xs @ [last xs]) @ t) =
          (if butlast xs = [] then [slash] else abs_path (butlast xs))"
    by (rule path_dirname_abs [OF pr assms(3)])
  then have "path_dirname (abs_path xs @ t) =
          (if butlast xs = [] then [slash] else abs_path (butlast xs))"
    using xs by simp
  then show ?thesis
    using fs_key_abs_path [OF bl, of "[]"] fs_key_root by (simp split: if_splits)
qed

lemma entry_target_form:
  assumes "segs \<noteq> []" and "\<forall>s \<in> set segs. proper s"
    and "entry_target wd (abs_path segs) filePath = Some fullPath"
  shows "\<exists>rest t. (\<forall>s \<in> set rest. proper s) \<and> (t = [] \<or> t = [slash]) \<and>
           fullPath = abs_path (segs @ rest) @ t \<and>
           path_resolve wd fullPath = abs_path (segs @ rest)"
proof -
  from entry_target_Some [OF assms(3)]
  have r: "sanitizePath filePath \<noteq> []"
    and full: "fullPath = path_join (abs_path segs) (sanitizePath filePath)"
    and ok: "validatePath wd (abs_path segs) fullPath" by blast+
  show ?thesis
    using sanitized_target [OF assms(2,1) r ok [unfolded full]] full by blast
qed

lemma rejected_path_is_skipped:
  "fpath e = Some p \<Longrightarrow> entry_target wd outputDir p = None \<Longrightarrow>
   saveFile l wd outputDir fs e = (None, fs)"
  by (simp add: saveFile_def)

lemma saveFile_frame:
  assumes segs: "segs \<noteq> []" "\<forall>s \<in> set segs. proper s"
    and dirs: "\<forall>k \<in> set (prefixes segs). fs k = Some Dir"
    and run: "saveFile l wd (abs_path segs) fs e = (r, fs')"
    and ch: "fs' k \<noteq> fs k"
  shows "prefix segs k \<and> fs k \<noteq> Some Dir"
proof (cases "fpath e")
  case None
  with run ch show ?thesis by (simp add: saveFile_def)
next
  case (Some filePath)
  show ?thesis
  proof (cases "entry_target wd (abs_path segs) filePath")
    case None
    with run ch Some show ?thesis by (simp add: saveFile_def)
  next
    case tgt: (Some fullPath)
    obtain rest t where rest: "\<forall>s \<in> set rest. proper s" and t: "t = [] \<or> t = [slash]"
      and full: "fullPath = abs_path (segs @ rest) @ t"
      using entry_target_form [OF segs tgt] by blast
    have all: "\<forall>s \<in> set (segs @ rest). proper s" using segs(2) rest by auto
    have key: "fs_key fullPath = segs @ rest"
      unfolding full by (rule fs_key_abs_path [OF all t])
    have dkey: "fs_key (path_dirname fullPath) = butlast (segs @ rest)"
      unfolding full using fs_key_dirname [OF all _ t] segs(1) by simp
    define mk where "mk = (if existsSync fs (path_dirname fullPath) then Inr fs
                            else mkdirSync fs (path_dirname fullPath))"
    have step1: "prefix segs j \<and> fs j = None" if "mk = Inr fs1" "fs1 j \<noteq> fs j" for fs1 j
    proof -
      from that have "mkdirp fs [] (butlast (segs @ rest)) = Inr fs1"
        by (auto simp: mk_def mkdirSync_def dkey split: if_splits option.splits)
      from mkdirp_changes [OF this that(2)]
      have none: "fs j = None" and pj: "prefix j (butlast (segs @ rest))" by simp_all
      from pj have "prefix j (segs @ rest)"
        by (meson prefix_order.trans prefixeq_butlast)
      then have "prefix j segs \<or> prefix segs j"
        by (meson prefix_same_cases prefixI)
      moreover have "\<not> prefix j segs"
        using dirs none by (auto simp: in_set_prefixes)
      ultimately show ?thesis using none by simp
    qed
    show ?thesis
    proof (cases mk)
      case (Inl x)
      with run ch Some tgt show ?thesis
        by (simp add: saveFile_def mk_def [symmetric] Let_def)
    next
      case (Inr fs1)
      have step2: "j = segs @ rest \<and> fs1 j \<noteq> Some Dir"
        if "writeFileSync fs1 fullPath b = Inr fs2" "fs2 j \<noteq> fs1 j" for fs2 j b
        using writeFileSync_changes [OF that] unfolding key by blast
      from run Some tgt Inr
      have "fs' = fs1 \<or> (\<exists>b. writeFileSync fs1 fullPath b = Inr fs')"
        by (auto simp: saveFile_def mk_def [symmetric] Let_def
            split: decoded.splits if_splits sum.splits)
      then show ?thesis
      proof
        assume "fs' = fs1"
        with step1 [OF Inr, of k] ch show ?thesis by auto
      next
        assume "\<exists>b. writeFileSync fs1 fullPath b = Inr fs'"
        then obtain b where w: "writeFileSync fs1 fullPath b = Inr fs'" by blast
        show ?thesis
        proof (cases "fs' k = fs1 k")
          case True
          with ch have "fs1 k \<noteq> fs k" by simp
          with step1 [OF Inr, of k] show ?thesis by auto
        next
          case False
          from step2 [OF w False] have k: "k = segs @ rest" and nd: "fs1 k \<noteq> Some Dir"
            by blast+
          have "fs k \<noteq> Some Dir"
          proof
            assume d: "fs k = Some Dir"
            then have "fs1 k = fs k" using step1 [OF Inr, of k] by auto
            with nd d show False by simp
          qed
          with k show ?thesis by simp
        qed
      qed
    qed
  qed
qed

lemma saveFiles_frame:
  assumes segs: "segs \<noteq> []" "\<forall>s \<in> set segs. proper s"
  shows "\<forall>k \<in> set (prefixes segs). fs k = Some Dir \<Longrightarrow>
         saveFiles l wd (abs_path segs) fs fl = (r, fs') \<Longrightarrow> fs' k \<noteq> fs k \<Longrightarrow>
         prefix segs k \<and> fs k \<noteq> Some Dir"
proof (induction fl arbitrary: fs)
  case Nil
  then show ?case by simp
next
  case (Cons e fl)
  obtain r1 fs1 where one: "saveFile l wd (abs_path segs) fs e = (r1, fs1)"
    by (cases "saveFile l wd (abs_path segs) fs e") auto
  have keep: "fs j = Some Dir \<Longrightarrow> fs1 j = Some Dir" for j
    using saveFile_frame [OF segs Cons.prems(1) one, of j] by auto
  show ?case
  proof (cases r1)
    case (Some x)
    with Cons.prems(2) one have "fs' = fs1" by simp
    with saveFile_frame [OF segs Cons.prems(1) one, of k] Cons.prems(3) show ?thesis by simp
  next
    case None
    with Cons.prems(2) one have rest: "saveFiles l wd (abs_path segs) fs1 fl = (r, fs')" by simp
    have dirs1: "\<forall>k \<in> set (prefixes segs). fs1 k = Some Dir"
      using Cons.prems(1) keep by blast
    show ?thesis
    proof (cases "fs' k = fs1 k")
      case True
      with Cons.prems(3) have "fs1 k \<noteq> fs k" by simp
      with saveFile_frame [OF segs Cons.prems(1) one, of k] show ?thesis by simp
    next
      case False
      from Cons.IH [OF dirs1 rest False] have p: "prefix segs k" and nd: "fs1 k \<noteq> Some Dir"
        by blast+
      with keep [of k] show ?thesis by auto
    qed
  qed
qed

section \<open>The output directory of a session and the entries written below it\<close>

lemma isValidSessionId_proper: "isValidSessionId sid \<Longrightarrow> proper sid"
proof -
  assume "isValidSessionId sid"
  then have len: "length sid = 64" and hex: "\<forall>c \<in> set sid. c \<in> set ''0123456789abcdef''"
    by (simp_all add: isValidSessionId_iff)
  have "slash \<notin> set ''0123456789abcdef''" by (simp add: slash_def)
  with hex have "slash \<notin> set sid" by blast
  moreover from len have "sid \<noteq> []" "sid \<noteq> ''.''" "sid \<noteq> ''..''" by auto
  ultimately show ?thesis by (simp add: proper_def)
qed

lemma fs_key_proper: "\<forall>s \<in> set (fs_key p). proper s"
proof -
  obtain k ns where "fs_key p = replicate k ''..'' @ ns" "\<forall>n \<in> set ns. proper n" "k = 0"
    using normalizeSegs_shape [of "split_on slash p" "[]" "[]" 0 False] split_on_segments
    unfolding fs_key_def by auto
  then show ?thesis by simp
qed

lemma normalizeSegs_snoc_proper:
  "proper s \<Longrightarrow> normalizeSegs up acc (xs @ [s]) = normalizeSegs up acc xs @ [s]"
proof (induction xs arbitrary: acc)
  case Nil
  then show ?case by (simp add: proper_def)
next
  case (Cons x xs)
  then show ?case by (cases up) (auto split: list.splits)
qed

lemma path_join_proper:
  assumes "\<forall>x \<in> set segs. proper x" and "segs \<noteq> []" and "proper s"
  shows "path_join (abs_path segs) s = abs_path (segs @ [s])"
proof -
  have sne: "s \<noteq> []" and ns: "slash \<notin> set s" using assms(3) by (simp_all add: proper_def)
  have sp: "split_on slash s = [s]" by (rule split_on_no_sep [OF ns])
  have M: "segs @ [s] = normalizeSegs False (rev segs) (split_on slash s)"
    unfolding sp using normalizeSegs_proper [of "[s]" False "rev segs"] assms(3) by simp
  have "last s \<noteq> slash" using sne ns last_in_set by metis
  then show ?thesis
    using path_join_abs [OF assms(1,2) sne M] by auto
qed

lemma proper_literals: "proper ''temp''" "proper ''output''" "proper ''ar_output.zip''"
  by (simp_all add: proper_def slash_def)

lemma TEMP_DIR_abs:
  assumes "isAbsolute (dirname cfg)"
  shows "TEMP_DIR cfg = abs_path (fs_key (dirname cfg) @ [''temp''])"
proof -
  let ?a = "dirname cfg"
  let ?p = "?a @ slash # ''temp''"
  have ane: "?a \<noteq> []" and hd: "hd ?a = slash" using assms by (simp_all add: isAbsolute_def)
  have abs: "isAbsolute ?p" using ane hd by (simp add: isAbsolute_def)
  have "split_on slash ?p = split_on slash ?a @ [''temp'']"
    by (simp add: split_on_append_sep split_on_no_sep slash_def)
  then have N: "normalizeSegs False [] (split_on slash ?p) = fs_key ?a @ [''temp'']"
    using normalizeSegs_snoc_proper [OF proper_literals(1)] by (simp add: fs_key_def)
  have lastp: "last ?p \<noteq> slash" by (simp add: slash_def)
  have ne: "fs_key ?a @ [''temp''] \<noteq> []" by simp
  have nonempty: "\<forall>x \<in> set (fs_key ?a @ [''temp'']). x \<noteq> []"
    using fs_key_proper [of ?a] proper_nonempty by auto
  have jne: "join_with [slash] (fs_key ?a @ [''temp'']) \<noteq> []"
    using join_with_Nil_iff [OF nonempty] by simp
  have "path_normalize ?p = slash # join_with [slash] (fs_key ?a @ [''temp''])"
    using abs N jne lastp by (simp add: path_normalize_def normalizeString_def slash_str Let_def)
  also have "\<dots> = abs_path (fs_key ?a @ [''temp''])"
    by (rule abs_path_join [OF ne])
  finally show ?thesis
    using ane by (simp add: TEMP_DIR_def path_join_def slash_str)
qed

lemma outputDir_abs:
  assumes "isAbsolute (dirname cfg)" and "isValidSessionId sid"
  shows "path_join (TEMP_DIR cfg) sid = abs_path (fs_key (dirname cfg) @ [''temp'', sid])"
    and "path_join (path_join (TEMP_DIR cfg) sid) ''output'' =
           abs_path (fs_key (dirname cfg) @ [''temp'', sid, ''output''])"
proof -
  let ?d = "fs_key (dirname cfg)"
  have sid: "proper sid" by (rule isValidSessionId_proper [OF assms(2)])
  have t: "\<forall>x \<in> set (?d @ [''temp'']). proper x"
    using fs_key_proper [of "dirname cfg"] proper_literals(1) by auto
  have s: "\<forall>x \<in> set (?d @ [''temp'', sid]). proper x"
    using t sid by auto
  show one: "path_join (TEMP_DIR cfg) sid = abs_path (?d @ [''temp'', sid])"
    unfolding TEMP_DIR_abs [OF assms(1)] using path_join_proper [OF t _ sid] by simp
  show "path_join (path_join (TEMP_DIR cfg) sid) ''output'' = abs_path (?d @ [''temp'', sid, ''output''])"
    unfolding one using path_join_proper [OF s _ proper_literals(2)] by simp
qed




section \<open>A batch with an oversized entry\<close>

lemma root_only_spine: "root_only = spine []"
  by (auto simp: root_only_def spine_def fun_eq_iff)

lemma spine_snoc: "(spine pre)(pre @ [s] \<mapsto> Dir) = spine (pre @ [s])"
  by (auto simp: spine_def fun_eq_iff)

lemma mkdirp_spine: "mkdirp (spine pre) pre todo = Inr (spine (pre @ todo))"
proof (induction todo arbitrary: pre)
  case Nil
  then show ?case by simp
next
  case (Cons s ss)
  have "spine pre (pre @ [s]) = None" by (simp add: spine_def)
  then show ?case
    using Cons [of "pre @ [s]"] by (simp add: spine_snoc)
qed

lemma example_paths:
  "TEMP_DIR example_cfg = ''/srv/app/temp''"
  "path_join ''/srv/app/temp'' example_sid = example_sessionDir"
  "path_join example_sessionDir ''output'' = example_outputDir"
  "path_join example_sessionDir ''ar_output.zip'' = example_zipPath"
  "validatePath (cwd example_cfg) ''/srv/app/temp'' example_sessionDir"
  "fs_key example_outputDir = example_out"
  "fs_key example_zipPath = [''srv'', ''app'', ''temp'', example_sid, ''ar_output.zip'']"
  by code_simp+

lemma example_targets:
  "entry_target (cwd example_cfg) example_outputDir ''a.json''
     = Some (example_outputDir @ ''/a.json'')"
  "entry_target (cwd example_cfg) example_outputDir ''a.json/b/c.json''
     = Some (example_outputDir @ ''/a.json/b/c.json'')"
  "entry_target (cwd example_cfg) example_outputDir ''d.json''
     = Some (example_outputDir @ ''/d.json'')"
  by code_simp+

lemma example_keys:
  "fs_key (path_dirname (example_outputDir @ ''/a.json'')) = example_out"
  "fs_key (path_dirname (example_outputDir @ ''/d.json'')) = example_out"
  "fs_key (path_dirname (example_outputDir @ ''/a.json/b/c.json''))
     = example_out @ [''a.json'', ''b'']"
  "fs_key (example_outputDir @ ''/a.json'') = example_out @ [''a.json'']"
  "fs_key (example_outputDir @ ''/d.json'') = example_out @ [''d.json'']"
  "last (example_outputDir @ ''/a.json'') \<noteq> slash"
  "last (example_outputDir @ ''/d.json'') \<noteq> slash"
  "last example_zipPath \<noteq> slash"
  by code_simp+


lemma spine_self: "spine segs segs = Some Dir"
  by (simp add: spine_def)

lemma spine_below: "spine segs (segs @ x # xs) = None"
  by (simp add: spine_def prefix_def)

lemma mkdirp_through_dirs:
  "(\<And>j. 0 < j \<Longrightarrow> j \<le> length xs \<Longrightarrow> fs (pre @ take j xs) = Some Dir) \<Longrightarrow>
   mkdirp fs pre (xs @ ys) = mkdirp fs (pre @ xs) ys"
proof (induction xs arbitrary: pre)
  case Nil
  then show ?case by simp
next
  case (Cons x xs)
  have here: "fs (pre @ [x]) = Some Dir"
    using Cons.prems [of 1] by simp
  have "fs ((pre @ [x]) @ take j xs) = Some Dir" if "0 < j" "j \<le> length xs" for j
    using Cons.prems [of "Suc j"] that by simp
  from Cons.IH [of "pre @ [x]", OF this] here show ?case by simp
qed

lemma example_path_ok:
  "path_error example_outputDir = None"
  "path_error example_zipPath = None"
  "path_error (example_outputDir @ ''/a.json'') = None"
  "path_error (example_outputDir @ ''/d.json'') = None"
  "path_error (path_dirname (example_outputDir @ ''/a.json'')) = None"
  "path_error (path_dirname (example_outputDir @ ''/d.json'')) = None"
  "path_error (path_dirname (example_outputDir @ ''/a.json/b/c.json'')) = None"
  by code_simp+

lemma utf8_braces: "utf8_encode ''{}'' = [0x7B, 0x7D]"
  by code_simp

lemma decode_text: "decode_content l ''text'' (JStr s) = Buffer (utf8_encode s)"
  by (simp add: decode_content_def)

lemma spine_take: "spine segs (take j segs) = Some Dir"
  by (simp add: spine_def take_is_prefix)

lemma take_not_below: "take j segs \<noteq> segs @ x # xs"
proof
  assume "take j segs = segs @ x # xs"
  then have "length (take j segs) = length (segs @ x # xs)" by simp
  then show False by simp
qed

lemma disk_after_first_dirs: "disk_after_first (take j example_out) = Some Dir"
  by (simp add: disk_after_first_def take_not_below spine_take)

lemma disk_after_first_out: "disk_after_first example_out = Some Dir"
  by (simp add: disk_after_first_def spine_self)

lemma example_sid_valid: "isValidSessionId example_sid"
  by (simp add: isValidSessionId_iff example_sid_def)

lemma save_first:
  "saveFile l (cwd example_cfg) example_outputDir
     (spine example_out) first_entry = (None, disk_after_first)"
  by (simp add: saveFile_def first_entry_def example_targets example_keys existsSync_def
      spine_self spine_below decode_text utf8_braces MAX_BUFFER_def writeFileSync_def Let_def
      disk_after_first_def slash_def example_path_ok)

lemma save_oversized:
  "saveFile l (cwd example_cfg) example_outputDir
     disk_after_first oversized_entry = (Some ENOTDIR, disk_after_first)"
proof -
  have gone: "disk_after_first (example_out @ [''a.json'', ''b'']) = None"
    by (simp add: disk_after_first_def spine_below)
  have isfile: "disk_after_first (example_out @ [''a.json'']) = Some (File [0x7B, 0x7D])"
    by (simp add: disk_after_first_def)
  have "mkdirp disk_after_first [] (example_out @ [''a.json'', ''b'']) =
          mkdirp disk_after_first ([] @ example_out) [''a.json'', ''b'']"
    by (rule mkdirp_through_dirs) (simp add: disk_after_first_dirs)
  then have "mkdirp disk_after_first [] (example_out @ [''a.json'', ''b'']) = Inl ENOTDIR"
    using isfile by simp
  then show ?thesis
    using gone
    by (simp add: saveFile_def oversized_entry_def example_targets example_keys existsSync_def
        mkdirSync_def Let_def example_path_ok)
qed

lemma save_last:
  "saveFile l (cwd example_cfg) example_outputDir
     disk_after_first last_entry
   = (None, disk_after_first(example_out @ [''d.json''] \<mapsto> File [0x7B, 0x7D]))"
proof -
  have free: "disk_after_first (example_out @ [''d.json'']) = None"
    by (simp add: disk_after_first_def spine_below)
  show ?thesis
    using free disk_after_first_out
    by (simp add: saveFile_def last_entry_def example_targets example_keys existsSync_def
        decode_text utf8_braces MAX_BUFFER_def writeFileSync_def Let_def slash_def
        example_path_ok)
qed

lemma create_zip_start:
  "fl \<noteq> [] \<Longrightarrow> length fl \<le> 1000 \<Longrightarrow>
   create_zip l example_cfg root_only \<lparr>sessionId = Some example_sid, files = Some fl\<rparr> evs =
     (case saveFiles l (cwd example_cfg) example_outputDir
             (spine example_out) fl of
        (Some e, fs2) \<Rightarrow> (Reply 500 ''Internal server error'', fs2)
      | (None, fs2) \<Rightarrow>
          (case createZip fs2 example_zipPath evs of
             (Resolved, fs3) \<Rightarrow> (Success (''/download/'' @ example_sid @ ''/ar_output.zip''), fs3)
           | (Rejected, fs3) \<Rightarrow> (Reply 500 ''Internal server error'', fs3)
           | (Pending, fs3) \<Rightarrow> (NoReply, fs3)
           | (Exited, fs3) \<Rightarrow> (ProcessExit, fs3)))"
proof -
  have sid: "example_sid \<noteq> []" by (simp add: example_sid_def)
  have none: "root_only example_out = None"
    by (simp add: root_only_def example_out_def)
  have mk: "mkdirp root_only [] example_out = Inr (spine example_out)"
    using mkdirp_spine [of "[]" example_out] by (simp add: root_only_spine)
  assume "fl \<noteq> []" "length fl \<le> 1000"
  then show ?thesis
    using sid none mk example_sid_valid
    by (simp add: create_zip_def example_paths existsSync_def mkdirSync_def Let_def
        example_path_ok split: prod.splits option.splits)
qed

text \<open>
  Claim C7. The claim says that an entry with oversized content is skipped and never
  aborts the batch. The loop creates the directory of an entry before it checks the
  size of its content, so an oversized entry still runs \<open>mkdirSync\<close>, which can
  throw. In the batch below the second entry passes the path gate and is too large
  before decoding; its directory lies under the file \<open>a.json\<close> written by the first
  entry, \<open>mkdirSync\<close> throws \<open>ENOTDIR\<close>, the endpoint answers 500 and \<open>d.json\<close> is never
  written. The same batch without the oversized entry succeeds.
\<close>

theorem oversized_entry_aborts_batch:
  "entry_target (cwd example_cfg) example_outputDir ''a.json/b/c.json''
     = Some (example_outputDir @ ''/a.json/b/c.json'') \<and>
   decode_content l (ftype oversized_entry) (content oversized_entry) = TooLarge \<and>
   create_zip l example_cfg root_only
     \<lparr>sessionId = Some example_sid, files = Some [first_entry, oversized_entry, last_entry]\<rparr> evs
     = (Reply 500 ''Internal server error'', disk_after_first) \<and>
   disk_after_first (example_out @ [''d.json'']) = None \<and>
   create_zip l example_cfg root_only
     \<lparr>sessionId = Some example_sid, files = Some [first_entry, last_entry]\<rparr> [ZClose]
     = (Success (''/download/'' @ example_sid @ ''/ar_output.zip''),
        disk_after_first
          (example_out @ [''d.json''] \<mapsto> File [0x7B, 0x7D],
           [''srv'', ''app'', ''temp'', example_sid, ''ar_output.zip''] \<mapsto> File []))"
proof (intro conjI)
  show "entry_target (cwd example_cfg) example_outputDir ''a.json/b/c.json''
     = Some (example_outputDir @ ''/a.json/b/c.json'')"
    by (rule example_targets(2))
  show "decode_content l (ftype oversized_entry) (content oversized_entry) = TooLarge"
    by (simp add: decode_content_def oversized_entry_def MAX_BUFFER_def)
  show "create_zip l example_cfg root_only
     \<lparr>sessionId = Some example_sid, files = Some [first_entry, oversized_entry, last_entry]\<rparr> evs
     = (Reply 500 ''Internal server error'', disk_after_first)"
    by (simp add: create_zip_start save_first save_oversized)
  show "disk_after_first (example_out @ [''d.json'']) = None"
    by (simp add: disk_after_first_def spine_below)
  let ?fs3 = "disk_after_first(example_out @ [''d.json''] \<mapsto> File [0x7B, 0x7D])"
  let ?zip = "[''srv'', ''app'', ''temp'', example_sid, ''ar_output.zip'']"
  have parent: "?fs3 (butlast ?zip) = Some Dir"
    by (simp add: disk_after_first_def spine_def example_out_def)
  have free: "?fs3 ?zip = None"
    by (simp add: disk_after_first_def spine_def example_out_def)
  have "createZip ?fs3 example_zipPath [ZClose]
          = (Resolved, ?fs3(?zip \<mapsto> File []))"
    using parent free
    by (simp add: createZip_def writeFileSync_def example_paths example_keys Let_def
        example_path_ok)
  then show "create_zip l example_cfg root_only
     \<lparr>sessionId = Some example_sid, files = Some [first_entry, last_entry]\<rparr> [ZClose]
     = (Success (''/download/'' @ example_sid @ ''/ar_output.zip''), ?fs3(?zip \<mapsto> File []))"
    by (simp add: create_zip_start save_first save_last)
qed

section \<open>Building the archive\<close>

lemma zip_step_settled:
  "settled st \<noteq> Pending \<Longrightarrow> settled (zip_step k st ev) = settled st"
  by (cases ev) auto

lemma zip_run_settled:
  "settled st \<noteq> Pending \<Longrightarrow> settled (foldl (zip_step k) st evs) = settled st"
  by (induction evs arbitrary: st) (simp_all add: zip_step_settled)

lemma zip_step_closed:
  "\<not> stream_open st \<Longrightarrow> disk (zip_step k st ev) = disk st \<and> \<not> stream_open (zip_step k st ev)"
  by (cases ev) auto

lemma zip_run_closed:
  "\<not> stream_open st \<Longrightarrow> disk (foldl (zip_step k) st evs) = disk st"
proof (induction evs arbitrary: st)
  case Nil
  then show ?case by simp
next
  case (Cons ev evs)
  from zip_step_closed [OF Cons.prems, of k ev] Cons.IH [of "zip_step k st ev"]
  show ?case by simp
qed

lemma zip_run_disk:
  "stream_open st \<Longrightarrow> disk st k = Some (File b) \<Longrightarrow>
   disk (foldl (zip_step k) st evs) = (disk st)(k \<mapsto> File (b @ streamed evs))"
proof (induction evs arbitrary: st b)
  case Nil
  then show ?case by (simp add: fun_upd_idem)
next
  case (Cons ev evs)
  show ?case
  proof (cases ev)
    case (ZData d)
    define st1 where "st1 = st\<lparr>disk := (disk st)(k \<mapsto> File (b @ d))\<rparr>"
    have step: "zip_step k st ev = st1"
      using Cons.prems ZData by (simp add: append_file_def st1_def)
    have "stream_open st1" "disk st1 k = Some (File (b @ d))"
      using Cons.prems by (simp_all add: st1_def)
    from Cons.IH [OF this]
    have "disk (foldl (zip_step k) st1 evs) = (disk st1)(k \<mapsto> File ((b @ d) @ streamed evs))" .
    also have "\<dots> = (disk st)(k \<mapsto> File (b @ streamed (ev # evs)))"
      using ZData by (simp add: st1_def)
    finally show ?thesis by (simp add: step)
  next
    case ZArchiveError
    define st1 where "st1 = zip_step k st ev"
    have "stream_open st1" "disk st1 k = Some (File b)" and same: "disk st1 = disk st"
      using Cons.prems ZArchiveError by (simp_all add: st1_def)
    from Cons.IH [OF this(1,2)]
    have "disk (foldl (zip_step k) st1 evs) = (disk st1)(k \<mapsto> File (b @ streamed evs))" .
    then show ?thesis using ZArchiveError same by (simp add: st1_def)
  next
    case ZStreamError
    define st1 where "st1 = zip_step k st ev"
    have closed: "\<not> stream_open st1" and same: "disk st1 = disk st"
      using Cons.prems ZStreamError by (simp_all add: st1_def)
    have "disk (foldl (zip_step k) st1 evs) = disk st"
      using zip_run_closed [OF closed, of k evs] same by simp
    moreover have "(disk st)(k \<mapsto> File (b @ streamed (ev # evs))) = disk st"
      using ZStreamError Cons.prems(2) by (simp add: fun_upd_idem)
    ultimately show ?thesis by (simp add: st1_def)
  next
    case ZClose
    define st1 where "st1 = zip_step k st ev"
    have closed: "\<not> stream_open st1" and same: "disk st1 = disk st"
      using Cons.prems ZClose by (simp_all add: st1_def)
    have "disk (foldl (zip_step k) st1 evs) = disk st"
      using zip_run_closed [OF closed, of k evs] same by simp
    moreover have "(disk st)(k \<mapsto> File (b @ streamed (ev # evs))) = disk st"
      using ZClose Cons.prems(2) by (simp add: fun_upd_idem)
    ultimately show ?thesis by (simp add: st1_def)
  qed
qed

lemma zip_run_close_first:
  assumes "ZArchiveError \<notin> set pre" "ZStreamError \<notin> set pre"
    and "settled st = Resolved \<or> settled st = Pending \<and> stream_open st"
  shows "settled (foldl (zip_step k) st (pre @ ZClose # post)) = Resolved"
  using assms
proof (induction pre arbitrary: st)
  case Nil
  then show ?case by (auto simp: zip_run_settled)
next
  case (Cons ev pre)
  have "settled (zip_step k st ev) = Resolved \<or>
        settled (zip_step k st ev) = Pending \<and> stream_open (zip_step k st ev)"
    using Cons.prems by (cases ev) auto
  with Cons.IH [of "zip_step k st ev"] Cons.prems show ?case by simp
qed

lemma zip_run_archiver_first:
  assumes "ZClose \<notin> set pre" "ZStreamError \<notin> set pre"
    and "settled st = Rejected \<or> settled st = Pending \<and> stream_open st"
  shows "settled (foldl (zip_step k) st (pre @ ZArchiveError # post)) = Rejected"
  using assms
proof (induction pre arbitrary: st)
  case Nil
  then show ?case by (auto simp: zip_run_settled)
next
  case (Cons ev pre)
  have "settled (zip_step k st ev) = Rejected \<or>
        settled (zip_step k st ev) = Pending \<and> stream_open (zip_step k st ev)"
    using Cons.prems by (cases ev) auto
  with Cons.IH [of "zip_step k st ev"] Cons.prems show ?case by simp
qed

lemma zip_run_stream_first:
  assumes "ZClose \<notin> set pre" "ZArchiveError \<notin> set pre"
    and "settled st = Exited \<or> settled st = Pending \<and> stream_open st"
  shows "settled (foldl (zip_step k) st (pre @ ZStreamError # post)) = Exited"
  using assms
proof (induction pre arbitrary: st)
  case Nil
  then show ?case by (auto simp: zip_run_settled)
next
  case (Cons ev pre)
  have "settled (zip_step k st ev) = Exited \<or>
        settled (zip_step k st ev) = Pending \<and> stream_open (zip_step k st ev)"
    using Cons.prems by (cases ev) auto
  with Cons.IH [of "zip_step k st ev"] Cons.prems show ?case by simp
qed

lemma zip_run_resolved_only_by_close:
  "settled st = Pending \<Longrightarrow> stream_open st \<Longrightarrow>
   settled (foldl (zip_step k) st evs) = Resolved \<Longrightarrow>
   \<exists>pre post. evs = pre @ ZClose # post \<and> ZArchiveError \<notin> set pre \<and> ZStreamError \<notin> set pre"
proof (induction evs arbitrary: st)
  case Nil
  then show ?case by simp
next
  case (Cons ev evs)
  show ?case
  proof (cases ev)
    case (ZData d)
    then have "settled (zip_step k st ev) = Pending" "stream_open (zip_step k st ev)"
      using Cons.prems by simp_all
    from Cons.IH [OF this] Cons.prems(3) obtain pre post where
      "evs = pre @ ZClose # post" "ZArchiveError \<notin> set pre" "ZStreamError \<notin> set pre" by auto
    then have "ev # evs = (ev # pre) @ ZClose # post \<and> ZArchiveError \<notin> set (ev # pre) \<and>
               ZStreamError \<notin> set (ev # pre)"
      using ZData by simp
    then show ?thesis by blast
  next
    case ZArchiveError
    then have "settled (zip_step k st ev) = Rejected" using Cons.prems by simp
    then have "settled (foldl (zip_step k) (zip_step k st ev) evs) = Rejected"
      by (simp add: zip_run_settled)
    with Cons.prems(3) show ?thesis by simp
  next
    case ZStreamError
    then have "settled (zip_step k st ev) = Exited" using Cons.prems by simp
    then have "settled (foldl (zip_step k) (zip_step k st ev) evs) = Exited"
      by (simp add: zip_run_settled)
    with Cons.prems(3) show ?thesis by simp
  next
    case ZClose
    then have "ev # evs = [] @ ZClose # evs" by simp
    then show ?thesis by (metis empty_iff empty_set)
  qed
qed

lemma writeFileSync_result:
  "writeFileSync fs p b = Inr fs1 \<Longrightarrow>
   fs1 = fs(fs_key p \<mapsto> File b) \<and> path_error p = None"
  by (auto simp: writeFileSync_def Let_def split: if_splits option.splits node.splits)

text \<open>The build once the output file could be opened.\<close>

lemma createZip_opened:
  assumes "writeFileSync fs p [] = Inr fs1"
  shows "createZip fs p evs =
           (settled (foldl (zip_step (fs_key p))
                      \<lparr>settled = Pending, stream_open = True, disk = fs1\<rparr> evs),
            fs(fs_key p \<mapsto> File (streamed evs)))"
proof -
  let ?st = "\<lparr>settled = Pending, stream_open = True, disk = fs1\<rparr>"
  have fs1: "fs1 = fs(fs_key p \<mapsto> File [])"
    using writeFileSync_result [OF assms] by simp
  then have "disk ?st (fs_key p) = Some (File [])" by simp
  from zip_run_disk [of ?st "fs_key p" "[]" evs, OF _ this]
  have "disk (foldl (zip_step (fs_key p)) ?st evs) = fs(fs_key p \<mapsto> File (streamed evs))"
    using fs1 by simp
  then show ?thesis
    using assms by (simp add: createZip_def Let_def)
qed

lemma createZip_resolved_opened:
  "fst (createZip fs p evs) = Resolved \<Longrightarrow> \<exists>fs1. writeFileSync fs p [] = Inr fs1"
  by (cases "writeFileSync fs p []") (auto simp: createZip_def split: if_splits)

text \<open>
  A request that is answered with success when the stream closes at once has passed
  every check of the handler and has written its files; what the handler answers
  for another course of the build depends on the events alone.
\<close>

lemma create_zip_reaches_build:
  assumes "fst (create_zip l cfg fs body [ZClose]) = Success u"
  obtains sid fs2 where
    "sessionId body = Some sid" "isValidSessionId sid"
    "\<And>evs. create_zip l cfg fs body evs =
       (case createZip fs2 (path_join (path_join (TEMP_DIR cfg) sid) ''ar_output.zip'') evs of
          (Resolved, fs3) \<Rightarrow> (Success (''/download/'' @ sid @ ''/ar_output.zip''), fs3)
        | (Rejected, fs3) \<Rightarrow> (Reply 500 ''Internal server error'', fs3)
        | (Pending, fs3) \<Rightarrow> (NoReply, fs3)
        | (Exited, fs3) \<Rightarrow> (ProcessExit, fs3))"
proof -
  let ?sd = "\<lambda>sid. path_join (TEMP_DIR cfg) sid"
  let ?od = "\<lambda>sid. path_join (?sd sid) ''output''"
  from assms obtain sid where sid: "sessionId body = Some sid"
    by (cases "sessionId body") (simp_all add: create_zip_def)
  have valid: "sid \<noteq> []" "isValidSessionId sid"
    using assms sid by (auto simp: create_zip_def split: if_splits)
  from assms sid valid obtain fl where fl: "files body = Some fl"
    by (cases "files body") (simp_all add: create_zip_def)
  have size: "fl \<noteq> []" "\<not> 1000 < length fl"
    using assms sid valid fl by (auto simp: create_zip_def split: if_splits)
  have vp: "validatePath (cwd cfg) (TEMP_DIR cfg) (?sd sid)"
    using assms sid valid fl size by (auto simp: create_zip_def Let_def split: if_splits)
  obtain fs1 where mk:
    "(if existsSync fs (?od sid) then Inr fs else mkdirSync fs (?od sid)) = Inr fs1"
    using assms sid valid fl size vp
    by (cases "if existsSync fs (?od sid) then Inr fs else mkdirSync fs (?od sid)")
       (simp_all add: create_zip_def Let_def)
  obtain r fs2 where sv: "saveFiles l (cwd cfg) (?od sid) fs1 fl = (r, fs2)"
    by (cases "saveFiles l (cwd cfg) (?od sid) fs1 fl") blast
  have r: "r = None"
    using assms sid valid fl size vp mk sv
    by (cases r) (simp_all add: create_zip_def Let_def)
  have "create_zip l cfg fs body evs =
       (case createZip fs2 (path_join (?sd sid) ''ar_output.zip'') evs of
          (Resolved, fs3) \<Rightarrow> (Success (''/download/'' @ sid @ ''/ar_output.zip''), fs3)
        | (Rejected, fs3) \<Rightarrow> (Reply 500 ''Internal server error'', fs3)
        | (Pending, fs3) \<Rightarrow> (NoReply, fs3)
        | (Exited, fs3) \<Rightarrow> (ProcessExit, fs3))" for evs
    using sid valid fl size vp mk sv r by (simp add: create_zip_def Let_def)
  with sid valid(2) that show ?thesis by blast
qed

lemma build_reply:
  "(case (pr, rest) of
      (Resolved, fs3) \<Rightarrow> (Success u, fs3)
    | (Rejected, fs3) \<Rightarrow> (Reply 500 ''Internal server error'', fs3)
    | (Pending, fs3) \<Rightarrow> (NoReply, fs3)
    | (Exited, fs3) \<Rightarrow> (ProcessExit, fs3)) =
   ((case pr of Resolved \<Rightarrow> Success u | Rejected \<Rightarrow> Reply 500 ''Internal server error''
     | Pending \<Rightarrow> NoReply | Exited \<Rightarrow> ProcessExit), rest)"
  by (cases pr) simp_all

lemma hex_no_dot: "isValidSessionId sid \<Longrightarrow> hd sid \<noteq> CHR ''.''"
proof -
  assume "isValidSessionId sid"
  then have len: "length sid = 64" and hex: "\<forall>c \<in> set sid. c \<in> set ''0123456789abcdef''"
    by (simp_all add: isValidSessionId_iff)
  from len have "sid \<noteq> []" by auto
  then have "hd sid \<in> set sid" by simp
  with hex have "hd sid \<in> set ''0123456789abcdef''" by blast
  then show ?thesis by auto
qed

lemma archive_name_ok: "isValidFilename ''ar_output.zip''"
  by code_simp

lemma validatePath_child:
  assumes "\<forall>x \<in> set xs. proper x" and "xs \<noteq> []" and "proper s"
  shows "validatePath wd (abs_path xs) (abs_path (xs @ [s]))"
proof -
  have "\<forall>x \<in> set (xs @ [s]). proper x" using assms by auto
  then have "path_resolve wd (abs_path (xs @ [s])) = abs_path (xs @ [s])"
    by (intro path_resolve_abs_path_id) simp_all
  moreover have "path_resolve wd (abs_path xs) = abs_path xs"
    by (rule path_resolve_abs_path_id [OF assms(1,2)])
  ultimately show ?thesis
    by (simp add: validatePath_def abs_path_snoc)
qed

text \<open>The download handler on a disk that holds a file at the place of the archive.\<close>

lemma download_archive:
  assumes "isAbsolute (dirname cfg)" and "\<not> has_dot_part (fs_key (dirname cfg))"
    and "isValidSessionId sid"
    and "path_error (path_join (path_join (TEMP_DIR cfg) sid) ''ar_output.zip'') = None"
  shows "download cfg
           (fs2(fs_key (path_join (path_join (TEMP_DIR cfg) sid) ''ar_output.zip'') \<mapsto> File bytes))
           sid ''ar_output.zip'' = SendFile bytes"
proof -
  let ?d = "fs_key (dirname cfg)"
  let ?xs = "?d @ [''temp'', sid]"
  have sd: "path_join (TEMP_DIR cfg) sid = abs_path ?xs"
    by (rule outputDir_abs(1) [OF assms(1,3)])
  have allproper: "\<forall>x \<in> set ?xs. proper x"
    using fs_key_proper [of "dirname cfg"] proper_literals(1) isValidSessionId_proper [OF assms(3)]
    by auto
  have ne: "?xs \<noteq> []" by simp
  have zp: "path_join (abs_path ?xs) ''ar_output.zip'' = abs_path (?xs @ [''ar_output.zip''])"
    by (rule path_join_proper [OF allproper ne proper_literals(3)])
  have allproper': "\<forall>x \<in> set (?xs @ [''ar_output.zip'']). proper x"
    using allproper proper_literals(3) by auto
  have key: "fs_key (abs_path (?xs @ [''ar_output.zip''])) = ?xs @ [''ar_output.zip'']"
    using fs_key_abs_path [OF allproper', of "[]"] by simp
  have vp: "validatePath (cwd cfg) (abs_path ?xs) (abs_path (?xs @ [''ar_output.zip'']))"
    by (rule validatePath_child [OF allproper ne proper_literals(3)])
  have nd: "\<not> has_dot_part (?xs @ [''ar_output.zip''])"
    using assms(2) hex_no_dot [OF assms(3)] by (simp add: has_dot_part_def)
  have pe: "path_error (abs_path (?xs @ [''ar_output.zip''])) = None"
    using assms(4) by (simp add: sd zp)
  show ?thesis
    unfolding download_def Let_def sd zp
    using assms(3) archive_name_ok vp nd pe key
    by (simp add: existsSync_def)
qed

lemma zip_open:
  "writeFileSync disk_after_first example_zipPath [] =
     Inr (disk_after_first(example_zipKey \<mapsto> File []))"
proof -
  have parent: "disk_after_first (butlast example_zipKey) = Some Dir"
    by (simp add: disk_after_first_def spine_def example_out_def example_zipKey_def)
  have free: "disk_after_first example_zipKey = None"
    by (simp add: disk_after_first_def spine_def example_out_def example_zipKey_def)
  have key: "fs_key example_zipPath = example_zipKey"
    by (simp add: example_paths example_zipKey_def)
  have "example_zipKey \<noteq> []" by (simp add: example_zipKey_def)
  then show ?thesis
    using parent free
    by (simp add: writeFileSync_def key example_keys Let_def example_path_ok)
qed

lemma single_entry_build:
  "create_zip l example_cfg root_only single_body evs =
     (case createZip disk_after_first example_zipPath evs of
        (Resolved, fs3) \<Rightarrow> (Success (''/download/'' @ example_sid @ ''/ar_output.zip''), fs3)
      | (Rejected, fs3) \<Rightarrow> (Reply 500 ''Internal server error'', fs3)
      | (Pending, fs3) \<Rightarrow> (NoReply, fs3)
      | (Exited, fs3) \<Rightarrow> (ProcessExit, fs3))"
  by (simp add: single_body_def create_zip_start save_first)

lemma example_download_checks:
  "isValidFilename ''ar_output.zip''"
  "validatePath (cwd example_cfg) example_sessionDir example_zipPath"
  "isAbsolute (dirname example_cfg)"
  "\<not> has_dot_part (fs_key (dirname example_cfg))"
  "\<not> has_dot_part (fs_key example_zipPath)"
  by code_simp+

lemma example_builds:
  "createZip disk_after_first example_zipPath [ZClose] =
     (Resolved, disk_after_first(example_zipKey \<mapsto> File []))"
  "createZip disk_after_first example_zipPath [ZData [0x50, 0x4B], ZClose] =
     (Resolved, disk_after_first(example_zipKey \<mapsto> File [0x50, 0x4B]))"
  "createZip disk_after_first example_zipPath [ZData [0x50, 0x4B], ZArchiveError] =
     (Rejected, disk_after_first(example_zipKey \<mapsto> File [0x50, 0x4B]))"
  "createZip disk_after_first example_zipPath [ZData [0x50, 0x4B], ZStreamError] =
     (Exited, disk_after_first(example_zipKey \<mapsto> File [0x50, 0x4B]))"
  by (simp_all add: createZip_def zip_open append_file_def example_paths example_zipKey_def)

text \<open>
  Claim C8, amended. Take a request to the create-archive endpoint that is answered
  with success when the output stream closes at once, that is, a request that
  passes the checks of the handler, whose files are written and whose archive file
  can be opened; let the script directory be an absolute path none of whose parts
  starts with a dot. For every course of the build:
  the endpoint answers with success only if the output stream has emitted its close
  event before any error event of the archiver or of the stream;
  when the close event comes before any error event, the answer is the success
  object with the URL \<open>/download/<sessionId>/ar_output.zip\<close>;
  when an error event of the archiver comes before any close event and any error of
  the stream, the answer is 500 with the message \<open>Internal server error\<close>;
  when an error event of the output stream comes before any close event and any
  error of the archiver, there is no answer, because the server process exits;
  and the archive is written in place: whatever the course of the build and
  whatever the answer, the download handler run for \<open>ar_output.zip\<close> of the session
  on the disk the build leaves behind sends exactly the bytes that have reached the
  output stream.
\<close>

theorem archive_build_outcome:
  assumes "isAbsolute (dirname cfg)" and "\<not> has_dot_part (fs_key (dirname cfg))"
    and "sessionId body = Some sid"
    and "fst (create_zip l cfg fs body [ZClose]) = Success u"
  shows
    "(fst (create_zip l cfg fs body evs) = Success u' \<longrightarrow>
        (\<exists>pre post. evs = pre @ ZClose # post \<and>
                    ZArchiveError \<notin> set pre \<and> ZStreamError \<notin> set pre)) \<and>
     (ZArchiveError \<notin> set pre \<and> ZStreamError \<notin> set pre \<longrightarrow>
        fst (create_zip l cfg fs body (pre @ ZClose # post)) =
          Success (''/download/'' @ sid @ ''/ar_output.zip'')) \<and>
     (ZClose \<notin> set pre \<and> ZStreamError \<notin> set pre \<longrightarrow>
        fst (create_zip l cfg fs body (pre @ ZArchiveError # post)) =
          Reply 500 ''Internal server error'') \<and>
     (ZClose \<notin> set pre \<and> ZArchiveError \<notin> set pre \<longrightarrow>
        fst (create_zip l cfg fs body (pre @ ZStreamError # post)) = ProcessExit) \<and>
     download cfg (snd (create_zip l cfg fs body evs)) sid ''ar_output.zip'' =
       SendFile (streamed evs)"
proof -
  let ?zp = "path_join (path_join (TEMP_DIR cfg) sid) ''ar_output.zip''"
  let ?ok = "Success (''/download/'' @ sid @ ''/ar_output.zip'')"
  let ?reply = "\<lambda>pr. case pr of Resolved \<Rightarrow> ?ok | Rejected \<Rightarrow> Reply 500 ''Internal server error''
                      | Pending \<Rightarrow> NoReply | Exited \<Rightarrow> ProcessExit"
  from create_zip_reaches_build [OF assms(4)] obtain sid1 fs2 where
    sid1: "sessionId body = Some sid1" and valid1: "isValidSessionId sid1" and
    run1: "\<And>evs. create_zip l cfg fs body evs =
       (case createZip fs2 (path_join (path_join (TEMP_DIR cfg) sid1) ''ar_output.zip'') evs of
          (Resolved, fs3) \<Rightarrow> (Success (''/download/'' @ sid1 @ ''/ar_output.zip''), fs3)
        | (Rejected, fs3) \<Rightarrow> (Reply 500 ''Internal server error'', fs3)
        | (Pending, fs3) \<Rightarrow> (NoReply, fs3)
        | (Exited, fs3) \<Rightarrow> (ProcessExit, fs3))"
    by blast
  from sid1 assms(3) have same: "sid1 = sid" by simp
  have valid: "isValidSessionId sid" using valid1 same by simp
  have run: "create_zip l cfg fs body evs =
               (?reply (fst (createZip fs2 ?zp evs)), snd (createZip fs2 ?zp evs))" for evs
    using run1 [of evs] build_reply [where pr = "fst (createZip fs2 ?zp evs)" and rest = "snd (createZip fs2 ?zp evs)"]
    unfolding same by simp
  have "fst (createZip fs2 ?zp [ZClose]) = Resolved"
    using assms(4) unfolding run by (cases "fst (createZip fs2 ?zp [ZClose])") simp_all
  from createZip_resolved_opened [OF this] obtain fs1 where
    opened: "writeFileSync fs2 ?zp [] = Inr fs1" by blast
  let ?st = "\<lparr>settled = Pending, stream_open = True, disk = fs1\<rparr>"
  let ?end = "\<lambda>evs. settled (foldl (zip_step (fs_key ?zp)) ?st evs)"
  have reply: "fst (create_zip l cfg fs body evs) = ?reply (?end evs)" for evs
    unfolding run createZip_opened [OF opened] by simp
  have left: "snd (create_zip l cfg fs body evs) = fs2(fs_key ?zp \<mapsto> File (streamed evs))" for evs
    unfolding run createZip_opened [OF opened] by simp
  have only: "\<exists>pre post. evs = pre @ ZClose # post \<and>
                ZArchiveError \<notin> set pre \<and> ZStreamError \<notin> set pre"
    if "fst (create_zip l cfg fs body evs) = Success u'"
  proof -
    from that have "?end evs = Resolved"
      unfolding reply by (cases "?end evs") simp_all
    then show ?thesis
      by (intro zip_run_resolved_only_by_close [of ?st "fs_key ?zp" evs]) simp_all
  qed
  have closes: "fst (create_zip l cfg fs body (pre @ ZClose # post)) = ?ok"
    if "ZArchiveError \<notin> set pre \<and> ZStreamError \<notin> set pre"
  proof -
    have "?end (pre @ ZClose # post) = Resolved"
      using that by (intro zip_run_close_first) simp_all
    then show ?thesis unfolding reply by simp
  qed
  have fails: "fst (create_zip l cfg fs body (pre @ ZArchiveError # post)) =
                 Reply 500 ''Internal server error''"
    if "ZClose \<notin> set pre \<and> ZStreamError \<notin> set pre"
  proof -
    have "?end (pre @ ZArchiveError # post) = Rejected"
      using that by (intro zip_run_archiver_first) simp_all
    then show ?thesis unfolding reply by simp
  qed
  have exits: "fst (create_zip l cfg fs body (pre @ ZStreamError # post)) = ProcessExit"
    if "ZClose \<notin> set pre \<and> ZArchiveError \<notin> set pre"
  proof -
    have "?end (pre @ ZStreamError # post) = Exited"
      using that by (intro zip_run_stream_first) simp_all
    then show ?thesis unfolding reply by simp
  qed
  have pe: "path_error ?zp = None"
    using writeFileSync_result [OF opened] by simp
  have served: "download cfg (snd (create_zip l cfg fs body evs)) sid ''ar_output.zip'' =
                  SendFile (streamed evs)"
    unfolding left by (rule download_archive [OF assms(1,2) valid pe])
  from only closes fails exits served show ?thesis by blast
qed

theorem archive_build_outcome_witness:
  "isAbsolute (dirname example_cfg) \<and>
   \<not> has_dot_part (fs_key (dirname example_cfg)) \<and>
   sessionId single_body = Some example_sid \<and>
   fst (create_zip example_lib example_cfg root_only single_body [ZClose]) =
     Success (''/download/'' @ example_sid @ ''/ar_output.zip'') \<and>
   fst (create_zip example_lib example_cfg root_only single_body [ZData [0x50, 0x4B], ZClose]) =
     Success (''/download/'' @ example_sid @ ''/ar_output.zip'') \<and>
   (\<exists>pre post. [ZData [0x50, 0x4B], ZClose] = pre @ ZClose # post \<and>
               ZArchiveError \<notin> set pre \<and> ZStreamError \<notin> set pre) \<and>
   ZClose \<notin> set [ZData [0x50, 0x4B]] \<and>
   ZArchiveError \<notin> set [ZData [0x50, 0x4B]] \<and>
   ZStreamError \<notin> set [ZData [0x50, 0x4B]] \<and>
   fst (create_zip example_lib example_cfg root_only single_body
          ([ZData [0x50, 0x4B]] @ ZClose # [])) =
     Success (''/download/'' @ example_sid @ ''/ar_output.zip'') \<and>
   fst (create_zip example_lib example_cfg root_only single_body
          ([ZData [0x50, 0x4B]] @ ZArchiveError # [])) =
     Reply 500 ''Internal server error'' \<and>
   fst (create_zip example_lib example_cfg root_only single_body
          ([ZData [0x50, 0x4B]] @ ZStreamError # [])) = ProcessExit \<and>
   download example_cfg
     (snd (create_zip example_lib example_cfg root_only single_body [ZData [0x50, 0x4B], ZClose]))
     example_sid ''ar_output.zip'' = SendFile (streamed [ZData [0x50, 0x4B], ZClose])"
proof -
  let ?ok = "Success (''/download/'' @ example_sid @ ''/ar_output.zip'')"
  have h1: "isAbsolute (dirname example_cfg)"
    and h2: "\<not> has_dot_part (fs_key (dirname example_cfg))"
    by (rule example_download_checks)+
  have h3: "sessionId single_body = Some example_sid"
    by (simp add: single_body_def)
  have h4: "fst (create_zip example_lib example_cfg root_only single_body [ZClose]) = ?ok"
    by (simp add: single_entry_build example_builds(1))
  have h5: "fst (create_zip example_lib example_cfg root_only single_body
                   [ZData [0x50, 0x4B], ZClose]) = ?ok"
    by (simp add: single_entry_build example_builds(2))
  have h6: "ZClose \<notin> set [ZData [0x50, 0x4B]]" "ZArchiveError \<notin> set [ZData [0x50, 0x4B]]"
    "ZStreamError \<notin> set [ZData [0x50, 0x4B]]"
    by simp_all
  note th = archive_build_outcome [OF h1 h2 h3 h4,
      where evs = "[ZData [0x50, 0x4B], ZClose]"
        and u' = "''/download/'' @ example_sid @ ''/ar_output.zip''"
        and pre = "[ZData [0x50, 0x4B]]" and post = "[]"]
  from th h1 h2 h3 h4 h5 h6 show ?thesis by blast
qed

text \<open>
  Claim C8, as stated, fails in two of its parts. No partial archive is to be
  exposed when the build fails: \<open>createZip\<close> writes straight to the path the
  download endpoint serves and nothing removes the file when the archiver fails.
  Below, the archiver emits two bytes and then an error: the endpoint answers 500,
  and a download request for the session's archive receives the two bytes. And any
  error during compression is to propagate as a build failure: when the error is one
  of the output stream, which has no listener, the caller gets no answer at all,
  because the server process exits.
\<close>

theorem failed_build_leaves_partial_archive:
  "fst (create_zip example_lib example_cfg root_only single_body [ZData [0x50, 0x4B], ZArchiveError]) =
     Reply 500 ''Internal server error'' \<and>
   download example_cfg
     (snd (create_zip example_lib example_cfg root_only single_body
             [ZData [0x50, 0x4B], ZArchiveError]))
     example_sid ''ar_output.zip'' = SendFile [0x50, 0x4B] \<and>
   fst (create_zip example_lib example_cfg root_only single_body [ZData [0x50, 0x4B], ZStreamError]) =
     ProcessExit"
proof -
  have key: "fs_key example_zipPath = example_zipKey"
    by (simp add: example_paths example_zipKey_def)
  have nd: "\<not> has_dot_part example_zipKey"
    using example_download_checks(5) by (simp add: key)
  show ?thesis
    using example_sid_valid nd
    by (simp add: single_entry_build example_builds download_def example_paths(1,2,3,4,5)
        example_download_checks(1,2) key existsSync_def example_path_ok)
qed

end
